theory Spec2Isabelle
  imports Main
begin

section \<open>Data model\<close>

text \<open>
  The module \<^verbatim>\<open>astroid/helpers.py\<close> works on the nodes and runtime objects of astroid.
  Only the parts the helpers read are kept. Exceptions are values: a helper that can
  raise returns \<open>exn + 'a\<close>, with \<open>Inl\<close> for the exception that leaves the function.
\<close>

datatype exn = InferenceError | MroError | StopIteration | UnboundLocalError

text \<open>
  A lazy candidate sequence, as \<^verbatim>\<open>node.infer(context)\<close>, \<^verbatim>\<open>node.igetattr(name, context)\<close>
  and \<^verbatim>\<open>method.infer_call_result(caller, context)\<close> produce it, is the trace a consumer
  sees when it draws with \<^verbatim>\<open>next\<close>: a candidate and the rest, the clean end (where
  \<^verbatim>\<open>next\<close> raises \<^verbatim>\<open>StopIteration\<close>), or \<^verbatim>\<open>InferenceError\<close>. A call that raises
  \<^verbatim>\<open>InferenceError\<close> before it returns its generator is the trace \<open>Fails\<close> as well:
  every consumer in the module has the call and the first draw in the same \<^verbatim>\<open>try\<close>.
  The traces are finite: they are those of an inference engine that terminates.
\<close>

datatype 'a gen = Yield 'a "'a gen" | Stop | Fails

text \<open>\<^verbatim>\<open>util.YES\<close>, the sentinel for "no definite answer", beside a definite answer.\<close>

datatype 'a answer = YES | Definite 'a

text \<open>Class objects are compared by identity (\<^verbatim>\<open>is\<close>, \<^verbatim>\<open>in\<close>, \<^verbatim>\<open>set\<close>): a class is its address.\<close>

type_synonym cid = nat

text \<open>
  The value of a literal. \<^verbatim>\<open>isinstance(value, int)\<close> holds for an \<^verbatim>\<open>int\<close> and, as
  \<^verbatim>\<open>bool\<close> is a subclass of \<^verbatim>\<open>int\<close>, for a \<^verbatim>\<open>bool\<close>.
\<close>

datatype pyvalue = IntValue int | BoolValue bool | StrValue string | NoneValue

fun isinstance_int :: "pyvalue \<Rightarrow> bool" where
  "isinstance_int (IntValue _) = True"
| "isinstance_int (BoolValue _) = True"
| "isinstance_int _ = False"

text \<open>
  What inference yields. The variants are the classes the helpers test with
  \<^verbatim>\<open>isinstance\<close>; each carries the attributes the helpers read:
  \<^item> \<open>Uninferable\<close> is \<^verbatim>\<open>util.YES\<close> yielded as a candidate;
  \<^item> \<open>Lambda root_name\<close> is a \<^verbatim>\<open>treeabc.Lambda\<close> (a lambda or a function definition) with
    \<^verbatim>\<open>root().name\<close>;
  \<^item> \<open>BoundMethod results\<close> carries the candidates of \<^verbatim>\<open>infer_call_result\<close>;
  \<^item> \<open>Module name\<close> is a module;
  \<^item> \<open>Const value proxied\<close> is a literal with \<^verbatim>\<open>value\<close> and \<^verbatim>\<open>_proxied\<close>;
  \<^item> \<open>Instance proxied\<close> is any other object, with \<^verbatim>\<open>_proxied\<close>.
\<close>

datatype inferred =
    Uninferable
  | ClassDef cid
  | Lambda string
  | BoundMethod "inferred gen"
  | UnboundMethod
  | Module string
  | Const pyvalue "cid answer"
  | Instance "cid answer"

text \<open>A node, with the candidates of its inference and of its attribute lookups.\<close>

record node =
  infer :: "inferred gen"
  igetattr :: "string \<Rightarrow> inferred gen"

section \<open>\<^verbatim>\<open>safe_infer\<close>\<close>

text \<open>
  \<^verbatim>\<open>
  try:
      inferit = node.infer(context=context)
      value = next(inferit)
  except exceptions.InferenceError:
      return
  try:
      next(inferit)
      return # None if there is ambiguity on the inferred node
  except exceptions.InferenceError:
      return # there is some kind of ambiguity
  except StopIteration:
      return value
  \<close>
  The first \<^verbatim>\<open>try\<close> catches \<^verbatim>\<open>InferenceError\<close> only: the \<^verbatim>\<open>StopIteration\<close> that
  \<^verbatim>\<open>next\<close> raises on an empty sequence leaves the function.
\<close>

definition safe_infer :: "node \<Rightarrow> exn + inferred option" where
  "safe_infer nd =
     (case infer nd of
        Fails \<Rightarrow> Inr None
      | Stop \<Rightarrow> Inl StopIteration
      | Yield v inferit \<Rightarrow>
          (case inferit of
             Yield _ _ \<Rightarrow> Inr None
           | Fails \<Rightarrow> Inr None
           | Stop \<Rightarrow> Inr (Some v)))"

section \<open>Classes and the memoised flag\<close>

text \<open>
  A class definition, with what the helpers read or write: \<^verbatim>\<open>name\<close>, \<^verbatim>\<open>parent\<close> (the
  module a synthetic class is attached to, by its name), \<^verbatim>\<open>bases\<close> (the base
  expressions, in declaration order), \<^verbatim>\<open>newstyle\<close>, the result of \<^verbatim>\<open>metaclass()\<close>
  (\<open>None\<close> for Python's \<^verbatim>\<open>None\<close>), the result of \<^verbatim>\<open>mro()\<close> (\<open>None\<close> when it raises
  \<^verbatim>\<open>MroError\<close>), and the attribute \<^verbatim>\<open>_all_bases_known\<close> (\<open>None\<close> while reading it
  raises \<^verbatim>\<open>AttributeError\<close>).
\<close>

record classdef =
  name :: string
  parent :: "string option"
  bases :: "node list"
  newstyle :: bool
  metaclass :: "cid option"
  mro :: "cid list option"
  all_bases_known :: "bool option"

type_synonym store = "cid \<Rightarrow> classdef"

text \<open>
  A call that runs on the store ends with the store it leaves and either the exception
  that escaped or the value returned; \<open>None\<close> is a call that does not return within
  the recursion depth it was given.
\<close>

type_synonym 'a outcome = "((exn + 'a) \<times> store) option"

definition set_all_bases_known :: "store \<Rightarrow> cid \<Rightarrow> bool \<Rightarrow> store" where
  "set_all_bases_known s klass b = s(klass := (s klass)\<lparr>all_bases_known := Some b\<rparr>)"

section \<open>\<^verbatim>\<open>has_known_bases\<close>\<close>

text \<open>
  \<^verbatim>\<open>
  try:
      return klass._all_bases_known
  except AttributeError:
      pass
  for base in klass.bases:
      result = safe_infer(base, context=context)
      # TODO: check for A->B->A->B pattern in class structure too?
      if (not isinstance(result, treeabc.ClassDef) or
              result is klass or
              not has_known_bases(result, context=context)):
          klass._all_bases_known = False
          return False
  klass._all_bases_known = True
  return True
  \<close>
  The first argument bounds the depth of the recursion: \<open>has_known_bases (Suc n)\<close> may
  call \<open>has_known_bases n\<close>. \<open>bases_loop\<close> is the \<^verbatim>\<open>for\<close> loop on the bases that remain.
  An exception of \<^verbatim>\<open>safe_infer\<close> or of the recursive call is not caught.
\<close>

fun has_known_bases :: "nat \<Rightarrow> store \<Rightarrow> cid \<Rightarrow> bool outcome"
  and bases_loop :: "nat \<Rightarrow> store \<Rightarrow> cid \<Rightarrow> node list \<Rightarrow> bool outcome" where
  "has_known_bases 0 s klass = None"
| "has_known_bases (Suc n) s klass =
     (case all_bases_known (s klass) of
        Some b \<Rightarrow> Some (Inr b, s)
      | None \<Rightarrow> bases_loop n s klass (bases (s klass)))"
| "bases_loop n s klass [] = Some (Inr True, set_all_bases_known s klass True)"
| "bases_loop n s klass (base # rest) =
     (case safe_infer base of
        Inl e \<Rightarrow> Some (Inl e, s)
      | Inr (Some (ClassDef result)) \<Rightarrow>
          if result = klass then Some (Inr False, set_all_bases_known s klass False)
          else (case has_known_bases n s result of
                  None \<Rightarrow> None
                | Some (Inl e, s') \<Rightarrow> Some (Inl e, s')
                | Some (Inr known, s') \<Rightarrow>
                    if \<not> known then Some (Inr False, set_all_bases_known s' klass False)
                    else bases_loop n s' klass rest)
      | Inr _ \<Rightarrow> Some (Inr False, set_all_bases_known s klass False))"

section \<open>What \<^verbatim>\<open>has_known_bases\<close> decides\<close>

text \<open>
  The four checks of a base, stated on the table of the bases alone (the memoised flags
  play no part). A base passes when \<^verbatim>\<open>safe_infer\<close> gives a class definition, that
  class is not the class examined, and the bases of that class are all known in turn.
  \<open>bases_all_known\<close> is the least such predicate: every base passes.
\<close>

inductive bases_all_known :: "(cid \<Rightarrow> node list) \<Rightarrow> cid \<Rightarrow> bool" for B where
  all_pass:
    "(\<And>base. base \<in> set (B C) \<Longrightarrow>
        \<exists>D. safe_infer base = Inr (Some (ClassDef D)) \<and> D \<noteq> C \<and> bases_all_known B D) \<Longrightarrow>
     bases_all_known B C"

definition base_passes :: "(cid \<Rightarrow> node list) \<Rightarrow> cid \<Rightarrow> node \<Rightarrow> bool" where
  "base_passes B C base =
     (\<exists>D. safe_infer base = Inr (Some (ClassDef D)) \<and> D \<noteq> C \<and> bases_all_known B D)"

text \<open>
  \<open>bases_not_known\<close>: in declaration order, the bases before some base pass, and that
  base fails one of the four checks: \<^verbatim>\<open>safe_infer\<close> returns \<^verbatim>\<open>None\<close> (inference failed
  or was ambiguous), it returns an object that is no class definition, it returns the
  class examined, or it returns a class whose own bases are not known.
\<close>

inductive bases_not_known :: "(cid \<Rightarrow> node list) \<Rightarrow> cid \<Rightarrow> bool" for B where
  unresolved:
    "B C = before @ base # after \<Longrightarrow> \<forall>p \<in> set before. base_passes B C p \<Longrightarrow>
     safe_infer base = Inr None \<Longrightarrow> bases_not_known B C"
| not_a_class:
    "B C = before @ base # after \<Longrightarrow> \<forall>p \<in> set before. base_passes B C p \<Longrightarrow>
     safe_infer base = Inr (Some v) \<Longrightarrow> \<forall>D. v \<noteq> ClassDef D \<Longrightarrow> bases_not_known B C"
| itself:
    "B C = before @ base # after \<Longrightarrow> \<forall>p \<in> set before. base_passes B C p \<Longrightarrow>
     safe_infer base = Inr (Some (ClassDef C)) \<Longrightarrow> bases_not_known B C"
| inherited:
    "B C = before @ base # after \<Longrightarrow> \<forall>p \<in> set before. base_passes B C p \<Longrightarrow>
     safe_infer base = Inr (Some (ClassDef D)) \<Longrightarrow> D \<noteq> C \<Longrightarrow> bases_not_known B D \<Longrightarrow>
     bases_not_known B C"

text \<open>The table of the bases of a store, and a store whose memoised flags are right.\<close>

definition bases_of :: "store \<Rightarrow> cid \<Rightarrow> node list" where
  "bases_of s c = bases (s c)"

definition flags_accurate :: "store \<Rightarrow> bool" where
  "flags_accurate s =
     (\<forall>c. (all_bases_known (s c) = Some True \<longrightarrow> bases_all_known (bases_of s) c) \<and>
          (all_bases_known (s c) = Some False \<longrightarrow> bases_not_known (bases_of s) c))"

section \<open>\<^verbatim>\<open>_type_check\<close>, \<^verbatim>\<open>is_subtype\<close>, \<^verbatim>\<open>is_supertype\<close>\<close>

text \<open>
  What the helpers take from their environment: \<^verbatim>\<open>six.PY2\<close>, and the class that
  \<^verbatim>\<open>builtins.getattr('type')[0]\<close> finds in the module of the built-ins.
\<close>

record env =
  PY2 :: bool
  builtin_type :: cid

text \<open>
  \<^verbatim>\<open>all(map(has_known_bases, (type1, type2)))\<close>. Under Python 2 \<^verbatim>\<open>map\<close> builds the
  list, so both calls run; under Python 3 it is lazy and \<^verbatim>\<open>all\<close> stops at the first
  false value, so the second call runs only when the first returned true.
\<close>

definition all_known_bases :: "nat \<Rightarrow> env \<Rightarrow> store \<Rightarrow> cid \<Rightarrow> cid \<Rightarrow> bool outcome" where
  "all_known_bases n e s type1 type2 =
     (case has_known_bases n s type1 of
        None \<Rightarrow> None
      | Some (Inl x, s1) \<Rightarrow> Some (Inl x, s1)
      | Some (Inr b1, s1) \<Rightarrow>
          if \<not> PY2 e \<and> \<not> b1 then Some (Inr False, s1)
          else (case has_known_bases n s1 type2 of
                  None \<Rightarrow> None
                | Some (Inl x, s2) \<Rightarrow> Some (Inl x, s2)
                | Some (Inr b2, s2) \<Rightarrow> Some (Inr (b1 \<and> b2), s2)))"

text \<open>
  \<^verbatim>\<open>
  if not all(map(has_known_bases, (type1, type2))):
      return util.YES
  if not all([type1.newstyle, type2.newstyle]):
      return False
  try:
      return type1 in type2.mro()[:-1]
  except exceptions.MroError:
      return util.YES
  \<close>
\<close>

definition type_check :: "nat \<Rightarrow> env \<Rightarrow> store \<Rightarrow> cid \<Rightarrow> cid \<Rightarrow> bool answer outcome" where
  "type_check n e s type1 type2 =
     (case all_known_bases n e s type1 type2 of
        None \<Rightarrow> None
      | Some (Inl x, s') \<Rightarrow> Some (Inl x, s')
      | Some (Inr known, s') \<Rightarrow>
          if \<not> known then Some (Inr YES, s')
          else if \<not> (newstyle (s' type1) \<and> newstyle (s' type2)) then Some (Inr (Definite False), s')
          else (case mro (s' type2) of
                  None \<Rightarrow> Some (Inr YES, s')
                | Some order \<Rightarrow> Some (Inr (Definite (type1 \<in> set (butlast order))), s')))"

definition is_subtype :: "nat \<Rightarrow> env \<Rightarrow> store \<Rightarrow> cid \<Rightarrow> cid \<Rightarrow> bool answer outcome" where
  "is_subtype n e s type1 type2 = type_check n e s type2 type1"

definition is_supertype :: "nat \<Rightarrow> env \<Rightarrow> store \<Rightarrow> cid \<Rightarrow> cid \<Rightarrow> bool answer outcome" where
  "is_supertype n e s type1 type2 = type_check n e s type1 type2"

text \<open>
  Modelled from the spec: \<^verbatim>\<open>ClassDef.mro()\<close> is not in the source file. Section 4.4 of
  the spec describes its result for a class \<open>upper\<close> as "an ordered sequence of ancestor
  classes, itself ending in \<open>upper\<close>", and the glossary as "a total ordering of a class
  and all its ancestors": the order is not empty, its last entry is the class, and no
  class stands in it twice.
\<close>

definition resolution_order_of :: "cid \<Rightarrow> cid list \<Rightarrow> bool" where
  "resolution_order_of upper order = (order \<noteq> [] \<and> last order = upper \<and> distinct order)"

section \<open>\<^verbatim>\<open>_build_proxy_class\<close>, \<^verbatim>\<open>_function_type\<close>, \<^verbatim>\<open>_object_type\<close>, \<^verbatim>\<open>object_type\<close>\<close>

text \<open>
  \<^verbatim>\<open>BUILTINS = six.moves.builtins.__name__\<close>. A module is named by its name: the module
  of the built-ins, \<^verbatim>\<open>astroid_cache[BUILTINS]\<close>, is \<open>BUILTINS\<close>.
\<close>

definition BUILTINS :: "env \<Rightarrow> string" where
  "BUILTINS e = (if PY2 e then ''__builtin__'' else ''builtins'')"

text \<open>The classes that exist, and the address the next new class gets.\<close>

record heap =
  classes :: store
  next_id :: cid

text \<open>
  Modelled from the spec: \<^verbatim>\<open>raw_building.build_class\<close> is not in the source file.
  Section 6 of the spec: it produces "a fresh synthetic descriptor with no declared
  bases". The new class has the name given, no parent yet, no bases and no memoised
  flag; its other attributes are left as they are.
\<close>

definition build_class :: "string \<Rightarrow> heap \<Rightarrow> cid \<times> heap" where
  "build_class cls_name h =
     (next_id h,
      h\<lparr>classes := (classes h)(next_id h :=
            (classes h (next_id h))\<lparr>name := cls_name, parent := None, bases := [],
                                     all_bases_known := None\<rparr>),
        next_id := Suc (next_id h)\<rparr>)"

text \<open>
  \<^verbatim>\<open>
  proxy = raw_building.build_class(cls_name)
  proxy.parent = builtins
  return proxy
  \<close>
\<close>

definition build_proxy_class :: "string \<Rightarrow> string \<Rightarrow> heap \<Rightarrow> cid \<times> heap" where
  "build_proxy_class cls_name builtins h =
     (case build_class cls_name h of
        (proxy, h') \<Rightarrow>
          (proxy, h'\<lparr>classes := (classes h')(proxy := (classes h' proxy)\<lparr>parent := Some builtins\<rparr>)\<rparr>))"

text \<open>
  \<^verbatim>\<open>
  if isinstance(function, treeabc.Lambda):
      if function.root().name == BUILTINS:
          cls_name = 'builtin_function_or_method'
      else:
          cls_name = 'function'
  elif isinstance(function, runtimeabc.BoundMethod):
      if six.PY2:
          cls_name = 'instancemethod'
      else:
          cls_name = 'method'
  elif isinstance(function, runtimeabc.UnboundMethod):
      if six.PY2:
          cls_name = 'instancemethod'
      else:
          cls_name = 'function'
  return _build_proxy_class(cls_name, builtins)
  \<close>
  The chain has no \<^verbatim>\<open>else\<close>: for any other object \<^verbatim>\<open>cls_name\<close> is unbound at the
  \<^verbatim>\<open>return\<close>.
\<close>

definition function_type :: "env \<Rightarrow> inferred \<Rightarrow> string \<Rightarrow> heap \<Rightarrow> exn + cid \<times> heap" where
  "function_type e function builtins h =
     (case (case function of
              Lambda root_name \<Rightarrow>
                Inr (if root_name = BUILTINS e then ''builtin_function_or_method'' else ''function'')
            | BoundMethod _ \<Rightarrow> Inr (if PY2 e then ''instancemethod'' else ''method'')
            | UnboundMethod \<Rightarrow> Inr (if PY2 e then ''instancemethod'' else ''function'')
            | _ \<Rightarrow> Inl UnboundLocalError) of
        Inl x \<Rightarrow> Inl x
      | Inr cls_name \<Rightarrow> Inr (build_proxy_class cls_name builtins h))"

text \<open>
  Modelled from the spec: the classes of \<^verbatim>\<open>runtimeabc\<close> are not in the source file. The
  spec (section 4.2) has a bound method classified through \<^verbatim>\<open>_function_type\<close>, which
  \<^verbatim>\<open>_object_type\<close> calls under
  \<^verbatim>\<open>isinstance(inferred, (treeabc.Lambda, runtimeabc.UnboundMethod))\<close>: a bound method is
  an instance of \<^verbatim>\<open>UnboundMethod\<close> too.
\<close>

fun isinstance_Lambda_or_UnboundMethod :: "inferred \<Rightarrow> bool" where
  "isinstance_Lambda_or_UnboundMethod (Lambda _) = True"
| "isinstance_Lambda_or_UnboundMethod (BoundMethod _) = True"
| "isinstance_Lambda_or_UnboundMethod UnboundMethod = True"
| "isinstance_Lambda_or_UnboundMethod _ = False"

text \<open>\<^verbatim>\<open>inferred._proxied\<close>, for an object that is no class, function, method or module.\<close>

fun proxied :: "inferred \<Rightarrow> cid answer" where
  "proxied (Const _ p) = p"
| "proxied (Instance p) = p"
| "proxied _ = YES"

text \<open>
  \<^verbatim>\<open>
  for inferred in node.infer(context=context):
      if isinstance(inferred, treeabc.ClassDef):
          yield inferred.metaclass() or builtins.getattr('type')[0]
      elif isinstance(inferred, (treeabc.Lambda, runtimeabc.UnboundMethod)):
          yield _function_type(inferred, builtins)
      elif isinstance(inferred, treeabc.Module):
          yield _build_proxy_class('module', builtins)
      else:
          yield inferred._proxied
  \<close>
  \<open>object_type_gen\<close> is the generator drawn to its end, as \<^verbatim>\<open>set(...)\<close> draws it: the
  exception that stopped it, or the types it yielded, in order.
\<close>

fun object_type_gen :: "env \<Rightarrow> heap \<Rightarrow> inferred gen \<Rightarrow> (exn + cid answer list) \<times> heap" where
  "object_type_gen e h Stop = (Inr [], h)"
| "object_type_gen e h Fails = (Inl InferenceError, h)"
| "object_type_gen e h (Yield inferred rest) =
     (case (case inferred of
              ClassDef c \<Rightarrow>
                Inr (case metaclass (classes h c) of
                       Some m \<Rightarrow> Definite m
                     | None \<Rightarrow> Definite (builtin_type e), h)
            | Module _ \<Rightarrow>
                (case build_proxy_class ''module'' (BUILTINS e) h of
                   (proxy, h') \<Rightarrow> Inr (Definite proxy, h'))
            | _ \<Rightarrow>
                if isinstance_Lambda_or_UnboundMethod inferred
                then (case function_type e inferred (BUILTINS e) h of
                        Inl x \<Rightarrow> Inl x
                      | Inr (proxy, h') \<Rightarrow> Inr (Definite proxy, h'))
                else Inr (proxied inferred, h)) of
        Inl x \<Rightarrow> (Inl x, h)
      | Inr (t, h') \<Rightarrow>
          (case object_type_gen e h' rest of
             (Inl x, h'') \<Rightarrow> (Inl x, h'')
           | (Inr ts, h'') \<Rightarrow> (Inr (t # ts), h'')))"

text \<open>
  \<^verbatim>\<open>
  try:
      types = set(_object_type(node, context))
  except exceptions.InferenceError:
      return util.YES
  if len(types) > 1 or not types:
      return util.YES
  return list(types)[0]
  \<close>
  The set holds each type once (classes are compared by identity); \<^verbatim>\<open>list(types)[0]\<close>
  is read only when the set has one member.
\<close>

definition object_type :: "env \<Rightarrow> heap \<Rightarrow> node \<Rightarrow> (exn + cid answer) \<times> heap" where
  "object_type e h nd =
     (case object_type_gen e h (infer nd) of
        (Inl x, h') \<Rightarrow> (if x = InferenceError then Inr YES else Inl x, h')
      | (Inr ts, h') \<Rightarrow>
          (let types = remdups ts
           in if length types > 1 \<or> types = [] then (Inr YES, h')
              else (Inr (hd types), h')))"

section \<open>\<^verbatim>\<open>class_instance_as_index\<close>\<close>

text \<open>
  \<^verbatim>\<open>
  try:
      for inferred in node.igetattr('__index__', context=context):
          if not isinstance(inferred, runtimeabc.BoundMethod):
              continue
          for result in inferred.infer_call_result(node, context=context):
              if (isinstance(result, treeabc.Const)
                      and isinstance(result.value, int)):
                  return result
  except exceptions.InferenceError:
      pass
  \<close>
  The inner loop ends with the result it returns, at the end of the call results, or
  with the \<^verbatim>\<open>InferenceError\<close> that the \<^verbatim>\<open>try\<close> around both loops catches.
\<close>

datatype 'a search = Found 'a | Exhausted | Raised

fun results_loop :: "inferred gen \<Rightarrow> inferred search" where
  "results_loop Stop = Exhausted"
| "results_loop Fails = Raised"
| "results_loop (Yield result rest) =
     (case result of
        Const v p \<Rightarrow> if isinstance_int v then Found result else results_loop rest
      | _ \<Rightarrow> results_loop rest)"

fun index_loop :: "inferred gen \<Rightarrow> inferred option" where
  "index_loop Stop = None"
| "index_loop Fails = None"
| "index_loop (Yield inferred rest) =
     (case inferred of
        BoundMethod results \<Rightarrow>
          (case results_loop results of
             Found result \<Rightarrow> Some result
           | Exhausted \<Rightarrow> index_loop rest
           | Raised \<Rightarrow> None)
      | _ \<Rightarrow> index_loop rest)"

definition class_instance_as_index :: "node \<Rightarrow> exn + inferred option" where
  "class_instance_as_index nd = Inr (index_loop (igetattr nd ''__index__''))"

section \<open>Candidate sequences, as lists\<close>

text \<open>Whether a sequence ends in \<^verbatim>\<open>InferenceError\<close>, and the candidates it yields before its end.\<close>

fun raises :: "'a gen \<Rightarrow> bool" where
  "raises (Yield _ g) = raises g"
| "raises Stop = False"
| "raises Fails = True"

fun yielded :: "'a gen \<Rightarrow> 'a list" where
  "yielded (Yield x g) = x # yielded g"
| "yielded Stop = []"
| "yielded Fails = []"

text \<open>One sequence after another: the second is drawn when the first has ended cleanly.\<close>

fun chain :: "'a gen \<Rightarrow> 'a gen \<Rightarrow> 'a gen" where
  "chain (Yield x g) k = Yield x (chain g k)"
| "chain Stop k = k"
| "chain Fails k = Fails"

text \<open>
  The call results that \<^verbatim>\<open>class_instance_as_index\<close> enumerates: for each candidate of the
  attribute that is a bound method, in order, the candidates of its call, in order. The
  enumeration is itself lazy, and ends at the first \<^verbatim>\<open>InferenceError\<close>.
\<close>

fun call_results :: "inferred gen \<Rightarrow> inferred gen" where
  "call_results (Yield (BoundMethod results) rest) = chain results (call_results rest)"
| "call_results (Yield _ rest) = call_results rest"
| "call_results Stop = Stop"
| "call_results Fails = Fails"

fun is_int_const :: "inferred \<Rightarrow> bool" where
  "is_int_const (Const v _) = isinstance_int v"
| "is_int_const _ = False"

text \<open>The first candidate of a sequence that is an integer constant, if it yields one.\<close>

fun first_int_const :: "inferred gen \<Rightarrow> inferred option" where
  "first_int_const (Yield x g) = (if is_int_const x then Some x else first_int_const g)"
| "first_int_const Stop = None"
| "first_int_const Fails = None"

text \<open>
  The call results of all the bound methods among the attribute's candidates, with no
  regard for a failure: what each sequence yields before its end.
\<close>

definition all_call_results :: "inferred gen \<Rightarrow> inferred list" where
  "all_call_results attr =
     concat (map (\<lambda>m. case m of BoundMethod results \<Rightarrow> yielded results | _ \<Rightarrow> [])
                 (yielded attr))"

text \<open>
  \<^verbatim>\<open>object_type\<close> returns a class that was not there before the call, with the name
  given, attached to the module of the built-ins.
\<close>

definition yields_proxy_named :: "env \<Rightarrow> heap \<Rightarrow> node \<Rightarrow> string \<Rightarrow> bool" where
  "yields_proxy_named e h nd cls_name =
     (case object_type e h nd of
        (Inr (Definite proxy), h') \<Rightarrow>
          proxy = next_id h \<and> next_id h' = Suc (next_id h) \<and>
          name (classes h' proxy) = cls_name \<and> parent (classes h' proxy) = Some (BUILTINS e)
      | _ \<Rightarrow> False)"

section \<open>Example inputs\<close>

text \<open>A node with the given candidates of inference, and no attribute.\<close>

definition node_of :: "inferred gen \<Rightarrow> node" where
  "node_of g = \<lparr>infer = g, igetattr = (\<lambda>_. Fails)\<rparr>"

text \<open>A base expression that infers to the class \<open>c\<close> and nothing else.\<close>

definition class_node :: "cid \<Rightarrow> node" where
  "class_node c = node_of (Yield (ClassDef c) Stop)"

definition plain_class :: classdef where
  "plain_class = \<lparr>name = ''C'', parent = None, bases = [], newstyle = True,
                   metaclass = None, mro = None, all_bases_known = None\<rparr>"

text \<open>
  The scenario of the spec: the class \<^verbatim>\<open>Base\<close> (at 0) declares no base, the class
  \<^verbatim>\<open>Derived\<close> (at 1) declares \<^verbatim>\<open>Base\<close>; both are new-style. In \<open>hierarchy\<close> the
  resolution orders end in the class itself, as the spec describes them; in
  \<open>hierarchy_c3\<close> they start with it, as Python's linearisation does.
\<close>

definition hierarchy :: store where
  "hierarchy = (\<lambda>_. plain_class)
     (0 := plain_class\<lparr>name := ''Base'', mro := Some [0]\<rparr>,
      Suc 0 := plain_class\<lparr>name := ''Derived'', bases := [class_node 0], mro := Some [0, Suc 0]\<rparr>)"

definition hierarchy_c3 :: store where
  "hierarchy_c3 = (\<lambda>_. plain_class)
     (0 := plain_class\<lparr>name := ''Base'', mro := Some [0]\<rparr>,
      Suc 0 := plain_class\<lparr>name := ''Derived'', bases := [class_node 0], mro := Some [Suc 0, 0]\<rparr>)"

text \<open>Two classes that name each other as their base: 0 inherits from 1, 1 from 0.\<close>

definition cyclic :: store where
  "cyclic = (\<lambda>_. plain_class)
     (0 := plain_class\<lparr>name := ''A'', bases := [class_node (Suc 0)]\<rparr>,
      Suc 0 := plain_class\<lparr>name := ''B'', bases := [class_node 0]\<rparr>)"

text \<open>
  The class at 2 declares two bases: the first infers to the class at 0 of the cycle, the
  inference of the second raises \<^verbatim>\<open>InferenceError\<close>.
\<close>

definition cyclic_then_failing :: store where
  "cyclic_then_failing = cyclic
     (2 := plain_class\<lparr>name := ''C'', bases := [class_node 0, node_of Fails]\<rparr>)"

text \<open>
  The class at 0 has its flag set to true, and a base whose candidate sequence is empty:
  resolving that base would raise \<^verbatim>\<open>StopIteration\<close>.
\<close>

definition stale :: store where
  "stale = (\<lambda>_. plain_class)
     (0 := plain_class\<lparr>bases := [node_of Stop], all_bases_known := Some True\<rparr>)"

text \<open>The scenario of the spec: the class \<^verbatim>\<open>Cyclic\<close> (at 0) declares itself as its base.\<close>

definition self_cyclic :: store where
  "self_cyclic = (\<lambda>_. plain_class)
     (0 := plain_class\<lparr>name := ''Cyclic'', bases := [class_node 0]\<rparr>)"

text \<open>
  An object with two \<^verbatim>\<open>__index__\<close> candidates, both bound methods: the call of the first
  raises \<^verbatim>\<open>InferenceError\<close>, the call of the second yields the constant 42.
\<close>

definition index_after_failure :: node where
  "index_after_failure =
     \<lparr>infer = Fails,
      igetattr = (\<lambda>_. Fails)
        (''__index__'' :=
           Yield (BoundMethod Fails)
             (Yield (BoundMethod (Yield (Const (IntValue 42) YES) Stop)) Stop))\<rparr>"

text \<open>An object whose \<^verbatim>\<open>__index__\<close> is one bound method that returns the constant 42.\<close>

definition index_42 :: node where
  "index_42 =
     \<lparr>infer = Fails,
      igetattr = (\<lambda>_. Fails)
        (''__index__'' := Yield (BoundMethod (Yield (Const (IntValue 42) YES) Stop)) Stop)\<rparr>"

text \<open>A heap in which the classes at 0 to 9 exist.\<close>

definition heap10 :: heap where
  "heap10 = \<lparr>classes = (\<lambda>_. plain_class), next_id = 10\<rparr>"

definition py3 :: env where
  "py3 = \<lparr>PY2 = False, builtin_type = 0\<rparr>"

definition py2 :: env where
  "py2 = \<lparr>PY2 = True, builtin_type = 0\<rparr>"

text \<open>What a call returned or raised, without the store it left.\<close>

definition returned :: "'a outcome \<Rightarrow> (exn + 'a) option" where
  "returned r = map_option fst r"

section \<open>Properties of \<^verbatim>\<open>safe_infer\<close>\<close>

lemma safe_infer_single: "infer nd = Yield v Stop \<Longrightarrow> safe_infer nd = Inr (Some v)"
  by (simp add: safe_infer_def)

lemma safe_infer_ambiguous: "infer nd = Yield v (Yield w g) \<Longrightarrow> safe_infer nd = Inr None"
  by (simp add: safe_infer_def)

lemma safe_infer_fails_first: "infer nd = Fails \<Longrightarrow> safe_infer nd = Inr None"
  by (simp add: safe_infer_def)

lemma safe_infer_exn: "safe_infer nd = Inl x \<Longrightarrow> x = StopIteration"
  by (auto simp: safe_infer_def split: gen.splits)

text \<open>
  C3. On a node whose candidate sequence terminates empty, \<^verbatim>\<open>safe_infer\<close> does not
  return \<^verbatim>\<open>None\<close>: the \<^verbatim>\<open>StopIteration\<close> of the first draw escapes.
\<close>

theorem safe_infer_empty_raises:
  "safe_infer \<lparr>infer = Stop, igetattr = (\<lambda>_. Fails)\<rparr> = Inl StopIteration"
  by (simp add: safe_infer_def)

text \<open>
  C10. When the sequence yields one value and the second draw raises
  \<^verbatim>\<open>InferenceError\<close>, \<^verbatim>\<open>safe_infer\<close> returns \<^verbatim>\<open>None\<close>, not the value yielded.
\<close>

theorem safe_infer_failure_after_first:
  "infer nd = Yield v Fails \<Longrightarrow> safe_infer nd = Inr None \<and> safe_infer nd \<noteq> Inr (Some v)"
  by (simp add: safe_infer_def)

theorem safe_infer_failure_after_first_witness:
  "safe_infer \<lparr>infer = Yield (Const (IntValue 1) YES) Fails, igetattr = (\<lambda>_. Fails)\<rparr> = Inr None
   \<and> safe_infer \<lparr>infer = Yield (Const (IntValue 1) YES) Fails, igetattr = (\<lambda>_. Fails)\<rparr>
       \<noteq> Inr (Some (Const (IntValue 1) YES))"
  using safe_infer_failure_after_first
    [of "\<lparr>infer = Yield (Const (IntValue 1) YES) Fails, igetattr = (\<lambda>_. Fails)\<rparr>"
        "Const (IntValue 1) YES"]
  by simp

section \<open>Runs of \<^verbatim>\<open>has_known_bases\<close>\<close>

lemma bases_loop_escapes:
  "safe_infer base = Inl x \<Longrightarrow> bases_loop n s k (base # rest) = Some (Inl x, s)"
  by simp

lemma bases_loop_no_class:
  "safe_infer base = Inr v \<Longrightarrow> \<forall>d. v \<noteq> Some (ClassDef d) \<Longrightarrow>
   bases_loop n s k (base # rest) = Some (Inr False, set_all_bases_known s k False)"
  by (simp split: option.splits inferred.splits)

lemma bases_loop_itself:
  "safe_infer base = Inr (Some (ClassDef k)) \<Longrightarrow>
   bases_loop n s k (base # rest) = Some (Inr False, set_all_bases_known s k False)"
  by simp

lemma bases_loop_rec:
  "safe_infer base = Inr (Some (ClassDef d)) \<Longrightarrow> d \<noteq> k \<Longrightarrow>
   bases_loop n s k (base # rest) =
     (case has_known_bases n s d of
        None \<Rightarrow> None
      | Some (Inl x, s1) \<Rightarrow> Some (Inl x, s1)
      | Some (Inr known, s1) \<Rightarrow>
          if known then bases_loop n s1 k rest
          else Some (Inr False, set_all_bases_known s1 k False))"
  by (simp split: option.splits sum.splits prod.splits)

lemma bases_loop_ConsE:
  assumes "bases_loop n s k (base # rest) = Some (r, s')"
  obtains
    (escapes) x where "safe_infer base = Inl x" "r = Inl x" "s' = s"
  | (no_class) v where "safe_infer base = Inr v" "\<forall>d. v \<noteq> Some (ClassDef d)"
      "r = Inr False" "s' = set_all_bases_known s k False"
  | (itself) "safe_infer base = Inr (Some (ClassDef k))"
      "r = Inr False" "s' = set_all_bases_known s k False"
  | (rec_escapes) d x where "safe_infer base = Inr (Some (ClassDef d))" "d \<noteq> k"
      "has_known_bases n s d = Some (Inl x, s')" "r = Inl x"
  | (rec_false) d s1 where "safe_infer base = Inr (Some (ClassDef d))" "d \<noteq> k"
      "has_known_bases n s d = Some (Inr False, s1)"
      "r = Inr False" "s' = set_all_bases_known s1 k False"
  | (rec_true) d s1 where "safe_infer base = Inr (Some (ClassDef d))" "d \<noteq> k"
      "has_known_bases n s d = Some (Inr True, s1)"
      "bases_loop n s1 k rest = Some (r, s')"
proof (cases "safe_infer base")
  case (Inl x)
  with assms bases_loop_escapes[OF Inl, of n s k rest] escapes show ?thesis by simp
next
  case (Inr v)
  show ?thesis
  proof (cases "\<exists>d. v = Some (ClassDef d)")
    case False
    then have nc: "\<forall>d. v \<noteq> Some (ClassDef d)" by simp
    from assms bases_loop_no_class[OF Inr nc, of n s k rest] no_class[OF Inr nc] show ?thesis by simp
  next
    case True
    then obtain d where v: "v = Some (ClassDef d)" by blast
    show ?thesis
    proof (cases "d = k")
      case True
      with Inr v have si: "safe_infer base = Inr (Some (ClassDef k))" by simp
      from assms bases_loop_itself[OF si, of n s rest] itself[OF si] show ?thesis by simp
    next
      case False
      from Inr v have si: "safe_infer base = Inr (Some (ClassDef d))" by simp
      note eq = bases_loop_rec[OF si False, of n s rest]
      show ?thesis
      proof (cases "has_known_bases n s d")
        case None
        with assms eq show ?thesis by simp
      next
        case (Some p)
        obtain r1 s1 where p: "p = (r1, s1)" by (cases p)
        show ?thesis
        proof (cases r1)
          case (Inl x)
          with assms eq Some p have "r = Inl x" "s' = s1" by simp_all
          with rec_escapes[OF si False, of x] Some p Inl show ?thesis by simp
        next
          case (Inr known)
          show ?thesis
          proof (cases known)
            case True
            with assms eq Some p Inr have "bases_loop n s1 k rest = Some (r, s')" by simp
            with rec_true[OF si False, of s1] Some p Inr True show ?thesis by simp
          next
            case False
            with assms eq Some p Inr have "r = Inr False" "s' = set_all_bases_known s1 k False"
              by simp_all
            with rec_false[OF si \<open>d \<noteq> k\<close>, of s1] Some p Inr False show ?thesis by simp
          qed
        qed
      qed
    qed
  qed
qed

lemma has_known_bases_SucE:
  assumes "has_known_bases (Suc n) s k = Some (r, s')"
  obtains
    (cached) b where "all_bases_known (s k) = Some b" "r = Inr b" "s' = s"
  | (computed) "all_bases_known (s k) = None" "bases_loop n s k (bases (s k)) = Some (r, s')"
proof (cases "all_bases_known (s k)")
  case None
  with assms have "bases_loop n s k (bases (s k)) = Some (r, s')" by simp
  with None computed show ?thesis by blast
next
  case (Some b)
  with assms have "Some (Inr b, s) = Some (r, s')" by simp
  then have "r = Inr b" "s' = s" by auto
  with Some cached show ?thesis by blast
qed


lemma hkb_run_induct:
  assumes cachedP: "\<And>n s k b. all_bases_known (s k) = Some b \<Longrightarrow> P (Suc n) s k (Inr b) s"
    and computedP: "\<And>n s k r s'. all_bases_known (s k) = None \<Longrightarrow>
          bases_loop n s k (bases (s k)) = Some (r, s') \<Longrightarrow> Q n s k (bases (s k)) r s' \<Longrightarrow>
          P (Suc n) s k r s'"
    and nilQ: "\<And>n s k. Q n s k [] (Inr True) (set_all_bases_known s k True)"
    and escapesQ: "\<And>n s k base rest x. safe_infer base = Inl x \<Longrightarrow> Q n s k (base # rest) (Inl x) s"
    and no_classQ: "\<And>n s k base rest v. safe_infer base = Inr v \<Longrightarrow> \<forall>d. v \<noteq> Some (ClassDef d) \<Longrightarrow>
          Q n s k (base # rest) (Inr False) (set_all_bases_known s k False)"
    and itselfQ: "\<And>n s k base rest. safe_infer base = Inr (Some (ClassDef k)) \<Longrightarrow>
          Q n s k (base # rest) (Inr False) (set_all_bases_known s k False)"
    and rec_escapesQ: "\<And>n s k base rest d x s1. safe_infer base = Inr (Some (ClassDef d)) \<Longrightarrow> d \<noteq> k \<Longrightarrow>
          has_known_bases n s d = Some (Inl x, s1) \<Longrightarrow> P n s d (Inl x) s1 \<Longrightarrow>
          Q n s k (base # rest) (Inl x) s1"
    and rec_falseQ: "\<And>n s k base rest d s1. safe_infer base = Inr (Some (ClassDef d)) \<Longrightarrow> d \<noteq> k \<Longrightarrow>
          has_known_bases n s d = Some (Inr False, s1) \<Longrightarrow> P n s d (Inr False) s1 \<Longrightarrow>
          Q n s k (base # rest) (Inr False) (set_all_bases_known s1 k False)"
    and rec_trueQ: "\<And>n s k base rest d s1 r s'. safe_infer base = Inr (Some (ClassDef d)) \<Longrightarrow> d \<noteq> k \<Longrightarrow>
          has_known_bases n s d = Some (Inr True, s1) \<Longrightarrow> P n s d (Inr True) s1 \<Longrightarrow>
          bases_loop n s1 k rest = Some (r, s') \<Longrightarrow> Q n s1 k rest r s' \<Longrightarrow>
          Q n s k (base # rest) r s'"
  shows "has_known_bases n s k = Some (r, s') \<Longrightarrow> P n s k r s'"
    and "bases_loop n s k bs = Some (r, s') \<Longrightarrow> Q n s k bs r s'"
proof (induction n s k and n s k bs arbitrary: r s' and r s'
    rule: has_known_bases_bases_loop.induct)
  case (1 s klass)
  then show ?case by simp
next
  case (2 n s klass)
  from 2(2) show ?case
  proof (cases rule: has_known_bases_SucE)
    case (cached b)
    with cachedP[of s klass b n] show ?thesis by blast
  next
    case computed
    from computedP[OF computed(1) computed(2) 2(1)[OF computed(1) computed(2)]]
    show ?thesis .
  qed
next
  case (3 n s klass)
  then have "r = Inr True" "s' = set_all_bases_known s klass True" by auto
  with nilQ[of n s klass] show ?case by blast
next
  case (4 n s klass base rest)
  from 4(3) show ?case
  proof (cases rule: bases_loop_ConsE)
    case (escapes x)
    with escapesQ[of base x n s klass rest] show ?thesis by blast
  next
    case (no_class v)
    with no_classQ[of base v n s klass rest] show ?thesis by blast
  next
    case itself
    with itselfQ[of base klass n s rest] show ?thesis by blast
  next
    case (rec_escapes d x)
    have "P n s d (Inl x) s'"
      using 4(1)[OF rec_escapes(1) refl refl rec_escapes(2) rec_escapes(3)] .
    from rec_escapesQ[OF rec_escapes(1,2,3) this] rec_escapes(4) show ?thesis by blast
  next
    case (rec_false d s1)
    have "P n s d (Inr False) s1"
      using 4(1)[OF rec_false(1) refl refl rec_false(2) rec_false(3)] .
    from rec_falseQ[OF rec_false(1,2,3) this] rec_false(4,5) show ?thesis by blast
  next
    case (rec_true d s1)
    have p: "P n s d (Inr True) s1"
      using 4(1)[OF rec_true(1) refl refl rec_true(2) rec_true(3)] .
    have q: "Q n s1 klass rest r s'"
      using 4(2)[OF rec_true(1) refl refl rec_true(2) rec_true(3) refl refl _ rec_true(4)] by simp
    from rec_trueQ[OF rec_true(1,2,3) p rec_true(4) q] show ?thesis .
  qed
qed

lemma hkb_runs:
  assumes "\<And>n s k b. all_bases_known (s k) = Some b \<Longrightarrow> P (Suc n) s k (Inr b) s"
    and "\<And>n s k r s'. all_bases_known (s k) = None \<Longrightarrow>
          bases_loop n s k (bases (s k)) = Some (r, s') \<Longrightarrow> Q n s k (bases (s k)) r s' \<Longrightarrow>
          P (Suc n) s k r s'"
    and "\<And>n s k. Q n s k [] (Inr True) (set_all_bases_known s k True)"
    and "\<And>n s k base rest x. safe_infer base = Inl x \<Longrightarrow> Q n s k (base # rest) (Inl x) s"
    and "\<And>n s k base rest v. safe_infer base = Inr v \<Longrightarrow> \<forall>d. v \<noteq> Some (ClassDef d) \<Longrightarrow>
          Q n s k (base # rest) (Inr False) (set_all_bases_known s k False)"
    and "\<And>n s k base rest. safe_infer base = Inr (Some (ClassDef k)) \<Longrightarrow>
          Q n s k (base # rest) (Inr False) (set_all_bases_known s k False)"
    and "\<And>n s k base rest d x s1. safe_infer base = Inr (Some (ClassDef d)) \<Longrightarrow> d \<noteq> k \<Longrightarrow>
          has_known_bases n s d = Some (Inl x, s1) \<Longrightarrow> P n s d (Inl x) s1 \<Longrightarrow>
          Q n s k (base # rest) (Inl x) s1"
    and "\<And>n s k base rest d s1. safe_infer base = Inr (Some (ClassDef d)) \<Longrightarrow> d \<noteq> k \<Longrightarrow>
          has_known_bases n s d = Some (Inr False, s1) \<Longrightarrow> P n s d (Inr False) s1 \<Longrightarrow>
          Q n s k (base # rest) (Inr False) (set_all_bases_known s1 k False)"
    and "\<And>n s k base rest d s1 r s'. safe_infer base = Inr (Some (ClassDef d)) \<Longrightarrow> d \<noteq> k \<Longrightarrow>
          has_known_bases n s d = Some (Inr True, s1) \<Longrightarrow> P n s d (Inr True) s1 \<Longrightarrow>
          bases_loop n s1 k rest = Some (r, s') \<Longrightarrow> Q n s1 k rest r s' \<Longrightarrow>
          Q n s k (base # rest) r s'"
  shows "(\<forall>n s k r s'. has_known_bases n s k = Some (r, s') \<longrightarrow> P n s k r s') \<and>
         (\<forall>n s k bs r s'. bases_loop n s k bs = Some (r, s') \<longrightarrow> Q n s k bs r s')"
proof (intro conjI allI impI)
  fix n s k r s'
  assume h: "has_known_bases n s k = Some (r, s')"
  show "P n s k r s'"
    by (rule hkb_run_induct(1)[where P = P and Q = Q, OF assms h])
next
  fix n s k bs r s'
  assume h: "bases_loop n s k bs = Some (r, s')"
  show "Q n s k bs r s'"
    by (rule hkb_run_induct(2)[where P = P and Q = Q, OF assms h])
qed

lemma set_flag_static:
  "(set_all_bases_known s k b c)\<lparr>all_bases_known := None\<rparr> = (s c)\<lparr>all_bases_known := None\<rparr>"
  by (simp add: set_all_bases_known_def)

lemma run_frame_both:
  "(\<forall>n s k r s'. has_known_bases n s k = Some (r, s') \<longrightarrow>
      (\<forall>c. (s' c)\<lparr>all_bases_known := None\<rparr> = (s c)\<lparr>all_bases_known := None\<rparr>)) \<and>
   (\<forall>n s k (bs :: node list) r s'. bases_loop n s k bs = Some (r, s') \<longrightarrow>
      (\<forall>c. (s' c)\<lparr>all_bases_known := None\<rparr> = (s c)\<lparr>all_bases_known := None\<rparr>))"
  by (rule hkb_runs) (simp_all add: set_flag_static)


lemma run_frame:
  assumes "has_known_bases n s k = Some (r, s')"
  shows "(s' c)\<lparr>all_bases_known := None\<rparr> = (s c)\<lparr>all_bases_known := None\<rparr>"
  using run_frame_both assms by blast

lemma static_fields:
  assumes "(c' :: classdef)\<lparr>all_bases_known := None\<rparr> = c\<lparr>all_bases_known := None\<rparr>"
  shows "bases c' = bases c" "newstyle c' = newstyle c" "mro c' = mro c"
    "name c' = name c" "parent c' = parent c" "metaclass c' = metaclass c"
proof -
  have "bases (c'\<lparr>all_bases_known := None\<rparr>) = bases (c\<lparr>all_bases_known := None\<rparr>)"
    "newstyle (c'\<lparr>all_bases_known := None\<rparr>) = newstyle (c\<lparr>all_bases_known := None\<rparr>)"
    "mro (c'\<lparr>all_bases_known := None\<rparr>) = mro (c\<lparr>all_bases_known := None\<rparr>)"
    "name (c'\<lparr>all_bases_known := None\<rparr>) = name (c\<lparr>all_bases_known := None\<rparr>)"
    "parent (c'\<lparr>all_bases_known := None\<rparr>) = parent (c\<lparr>all_bases_known := None\<rparr>)"
    "metaclass (c'\<lparr>all_bases_known := None\<rparr>) = metaclass (c\<lparr>all_bases_known := None\<rparr>)"
    using assms by simp_all
  then show "bases c' = bases c" "newstyle c' = newstyle c" "mro c' = mro c"
    "name c' = name c" "parent c' = parent c" "metaclass c' = metaclass c"
    by simp_all
qed

lemma run_bases_of:
  assumes "has_known_bases n s k = Some (r, s')"
  shows "bases_of s' = bases_of s"
proof
  fix c
  show "bases_of s' c = bases_of s c"
    unfolding bases_of_def by (rule static_fields(1)[OF run_frame[OF assms]])
qed

lemma run_persist_both:
  "(\<forall>n s k r s'. has_known_bases n s k = Some (r, s') \<longrightarrow>
      (\<forall>c x. all_bases_known (s c) = Some x \<longrightarrow> all_bases_known (s' c) = Some x)) \<and>
   (\<forall>n s k (bs :: node list) r s'. bases_loop n s k bs = Some (r, s') \<longrightarrow>
      (\<forall>c x. c \<noteq> k \<longrightarrow> all_bases_known (s c) = Some x \<longrightarrow> all_bases_known (s' c) = Some x))"
proof (rule hkb_runs, goal_cases)
  case (2 n s k r s')
  then show ?case by (metis option.distinct(1))
qed (simp_all add: set_all_bases_known_def)

lemma run_exn_both:
  "(\<forall>n s k r s'. has_known_bases n s k = Some (r, s') \<longrightarrow> (\<forall>x. r = Inl x \<longrightarrow> x = StopIteration)) \<and>
   (\<forall>n s k (bs :: node list) r s'. bases_loop n s k bs = Some (r, s') \<longrightarrow>
      (\<forall>x. r = Inl x \<longrightarrow> x = StopIteration))"
  by (rule hkb_runs) (simp_all add: safe_infer_exn)

lemma run_cached_both:
  "(\<forall>n s k r s'. has_known_bases n s k = Some (r, s') \<longrightarrow>
      (\<forall>b. r = Inr b \<longrightarrow> all_bases_known (s' k) = Some b)) \<and>
   (\<forall>n s k (bs :: node list) r s'. bases_loop n s k bs = Some (r, s') \<longrightarrow>
      (\<forall>b. r = Inr b \<longrightarrow> all_bases_known (s' k) = Some b))"
  by (rule hkb_runs) (simp_all add: set_all_bases_known_def)

lemma run_fuel_both:
  "(\<forall>n s k r s'. has_known_bases n s k = Some (r, s') \<longrightarrow>
      (\<forall>m. has_known_bases (n + m) s k = Some (r, s'))) \<and>
   (\<forall>n s k (bs :: node list) r s'. bases_loop n s k bs = Some (r, s') \<longrightarrow>
      (\<forall>m. bases_loop (n + m) s k bs = Some (r, s')))"
proof (rule hkb_runs, goal_cases)
  case (1 n s k b)
  then show ?case by simp
next
  case (2 n s k r s')
  then show ?case by simp
next
  case (3 n s k)
  then show ?case by simp
next
  case (4 n s k base rest x)
  then show ?case by (simp del: bases_loop.simps add: bases_loop_escapes)
next
  case (5 n s k base rest v)
  then show ?case by (simp del: bases_loop.simps add: bases_loop_no_class)
next
  case (6 n s k base rest)
  then show ?case by (simp del: bases_loop.simps add: bases_loop_itself)
next
  case (7 n s k base rest d x s1)
  then show ?case by (simp del: bases_loop.simps add: bases_loop_rec)
next
  case (8 n s k base rest d s1)
  then show ?case by (simp del: bases_loop.simps add: bases_loop_rec)
next
  case (9 n s k base rest d s1 r s')
  then show ?case by (simp del: bases_loop.simps add: bases_loop_rec)
qed

lemma run_fuel:
  assumes "has_known_bases n s k = Some p" "n \<le> m"
  shows "has_known_bases m s k = Some p"
proof -
  obtain r s' where p: "p = (r, s')" by (cases p)
  from assms(2) obtain d where m: "m = n + d" using le_Suc_ex by blast
  from run_fuel_both assms(1) p have "has_known_bases (n + d) s k = Some (r, s')" by blast
  with p m show ?thesis by simp
qed

lemma loop_fuel:
  assumes "bases_loop n s k bs = Some p" "n \<le> m"
  shows "bases_loop m s k bs = Some p"
proof -
  obtain r s' where p: "p = (r, s')" by (cases p)
  from assms(2) obtain d where m: "m = n + d" using le_Suc_ex by blast
  from run_fuel_both assms(1) p have "bases_loop (n + d) s k bs = Some (r, s')" by blast
  with p m show ?thesis by simp
qed

section \<open>Memoisation, and the subtype test\<close>

lemma flag_lookup:
  "all_bases_known (set_all_bases_known s k b c) = (if c = k then Some b else all_bases_known (s c))"
  "bases (set_all_bases_known s k b c) = bases (s c)"
  "newstyle (set_all_bases_known s k b c) = newstyle (s c)"
  "mro (set_all_bases_known s k b c) = mro (s c)"
  by (simp_all add: set_all_bases_known_def)

lemma hierarchy_at:
  "hierarchy 0 = plain_class\<lparr>name := ''Base'', mro := Some [0]\<rparr>"
  "hierarchy (Suc 0) = plain_class\<lparr>name := ''Derived'', bases := [class_node 0], mro := Some [0, Suc 0]\<rparr>"
  by (simp_all add: hierarchy_def)

lemma class_node_infer: "safe_infer (class_node c) = Inr (Some (ClassDef c))"
  by (simp add: class_node_def node_of_def safe_infer_def)

lemma hierarchy_base_run:
  "has_known_bases (Suc n) hierarchy 0 = Some (Inr True, set_all_bases_known hierarchy 0 True)"
  by (simp add: hierarchy_at plain_class_def)

lemma hierarchy_derived_run:
  "has_known_bases (Suc (Suc n)) hierarchy (Suc 0) =
     Some (Inr True, set_all_bases_known (set_all_bases_known hierarchy 0 True) (Suc 0) True)"
  by (simp add: hierarchy_at plain_class_def class_node_infer flag_lookup)

text \<open>
  C6. \<^verbatim>\<open>has_known_bases\<close> stores the boolean it returns in the flag of the class before
  it returns. While the flag of a class is set, a call on the class returns the flag and
  leaves the store as it is, in every store: whatever the bases of the class are, none is
  resolved. And a call on any class, whatever it returns or raises, leaves a flag that is
  set as it is: every later call on the class returns the same boolean.
\<close>

theorem has_known_bases_memoised:
  "(has_known_bases n s C = Some (Inr b, s') \<longrightarrow> all_bases_known (s' C) = Some b) \<and>
   (all_bases_known (s C) = Some b \<longrightarrow> has_known_bases (Suc m) s C = Some (Inr b, s)) \<and>
   (all_bases_known (s C) = Some b \<longrightarrow> has_known_bases n s D = Some (r, s') \<longrightarrow>
      all_bases_known (s' C) = Some b \<and> has_known_bases (Suc m) s' C = Some (Inr b, s'))"
proof (intro conjI impI)
  assume "has_known_bases n s C = Some (Inr b, s')"
  with run_cached_both show "all_bases_known (s' C) = Some b" by blast
next
  assume "all_bases_known (s C) = Some b"
  then show "has_known_bases (Suc m) s C = Some (Inr b, s)" by simp
next
  assume "all_bases_known (s C) = Some b" and "has_known_bases n s D = Some (r, s')"
  with run_persist_both show flag: "all_bases_known (s' C) = Some b" by blast
  then show "has_known_bases (Suc m) s' C = Some (Inr b, s')" by simp
qed


theorem has_known_bases_memoised_witness:
  "has_known_bases (Suc (Suc 0)) hierarchy (Suc 0) =
     Some (Inr True, set_all_bases_known (set_all_bases_known hierarchy 0 True) (Suc 0) True)
   \<and> all_bases_known
        (set_all_bases_known (set_all_bases_known hierarchy 0 True) (Suc 0) True (Suc 0)) = Some True
   \<and> has_known_bases (Suc 0) stale 0 = Some (Inr True, stale)
   \<and> has_known_bases (Suc 0) (stale(0 := (stale 0)\<lparr>all_bases_known := None\<rparr>)) 0
        = Some (Inl StopIteration, stale(0 := (stale 0)\<lparr>all_bases_known := None\<rparr>))
   \<and> has_known_bases (Suc 0) stale (Suc 0) = Some (Inr True, set_all_bases_known stale (Suc 0) True)
   \<and> all_bases_known (set_all_bases_known stale (Suc 0) True 0) = Some True
   \<and> has_known_bases (Suc 0) (set_all_bases_known stale (Suc 0) True) 0
        = Some (Inr True, set_all_bases_known stale (Suc 0) True)"
proof -
  let ?s1 = "set_all_bases_known (set_all_bases_known hierarchy 0 True) (Suc 0) True"
  let ?t1 = "set_all_bases_known stale (Suc 0) True"
  have run: "has_known_bases (Suc (Suc 0)) hierarchy (Suc 0) = Some (Inr True, ?s1)"
    by (rule hierarchy_derived_run)
  have flag: "all_bases_known (stale 0) = Some True"
    by (simp add: stale_def)
  have other: "has_known_bases (Suc 0) stale (Suc 0) = Some (Inr True, ?t1)"
    by (simp add: stale_def plain_class_def)
  have unflagged: "has_known_bases (Suc 0) (stale(0 := (stale 0)\<lparr>all_bases_known := None\<rparr>)) 0
        = Some (Inl StopIteration, stale(0 := (stale 0)\<lparr>all_bases_known := None\<rparr>))"
    by (simp add: stale_def plain_class_def node_of_def safe_infer_def)
  from has_known_bases_memoised[of "Suc (Suc 0)" hierarchy "Suc 0" True ?s1] run
  have a: "all_bases_known (?s1 (Suc 0)) = Some True" by blast
  from has_known_bases_memoised[of "Suc 0" stale 0 True ?t1 0 "Suc 0" "Inr True"] flag other
  have b: "has_known_bases (Suc 0) stale 0 = Some (Inr True, stale)"
    and c: "all_bases_known (?t1 0) = Some True"
    and d: "has_known_bases (Suc 0) ?t1 0 = Some (Inr True, ?t1)"
    by blast+
  from run a b unflagged other c d show ?thesis by blast
qed

lemma last_not_in_butlast: "xs \<noteq> [] \<Longrightarrow> distinct xs \<Longrightarrow> last xs \<notin> set (butlast xs)"
proof -
  assume "xs \<noteq> []" and d: "distinct xs"
  then have "xs = butlast xs @ [last xs]" by simp
  with d have "distinct (butlast xs @ [last xs])" by simp
  then show ?thesis by simp
qed

text \<open>
  C2. For a class whose bases are all known (\<^verbatim>\<open>has_known_bases\<close> returns true), that is
  new-style and whose resolution order is computed, \<^verbatim>\<open>is_subtype(A, A)\<close> returns false.
  The resolution order is as the spec describes it (\<open>resolution_order_of\<close>): it ends in
  the class itself, and the membership test leaves that last entry out.
\<close>

theorem is_subtype_irreflexive:
  assumes known: "has_known_bases n s A = Some (Inr True, s1)"
    and modern: "newstyle (s A)"
    and order: "mro (s A) = Some order" "resolution_order_of A order"
  shows "is_subtype n e s A A = Some (Inr (Definite False), s1)"
proof -
  from known obtain n' where n: "n = Suc n'" by (cases n) auto
  from run_cached_both known have flag: "all_bases_known (s1 A) = Some True" by blast
  then have again: "has_known_bases n s1 A = Some (Inr True, s1)" by (simp add: n)
  have both: "all_known_bases n e s A A = Some (Inr True, s1)"
    by (simp add: all_known_bases_def known again)
  have same: "newstyle (s1 A) = newstyle (s A)" "mro (s1 A) = mro (s A)"
    using static_fields[OF run_frame[OF known, of A]] by simp_all
  from order(2) have "A \<notin> set (butlast order)"
    unfolding resolution_order_of_def using last_not_in_butlast by blast
  then show ?thesis
    by (simp add: is_subtype_def type_check_def both same modern order(1))
qed


theorem is_subtype_irreflexive_witness:
  "has_known_bases (Suc (Suc 0)) hierarchy (Suc 0) =
     Some (Inr True, set_all_bases_known (set_all_bases_known hierarchy 0 True) (Suc 0) True)
   \<and> newstyle (hierarchy (Suc 0))
   \<and> mro (hierarchy (Suc 0)) = Some [0, Suc 0]
   \<and> resolution_order_of (Suc 0) [0, Suc 0]
   \<and> is_subtype (Suc (Suc 0)) py3 hierarchy (Suc 0) (Suc 0) =
       Some (Inr (Definite False),
             set_all_bases_known (set_all_bases_known hierarchy 0 True) (Suc 0) True)"
proof -
  have modern: "newstyle (hierarchy (Suc 0))"
    by (simp add: hierarchy_at plain_class_def)
  have order: "mro (hierarchy (Suc 0)) = Some [0, Suc 0]"
    by (simp add: hierarchy_at)
  have wf: "resolution_order_of (Suc 0) [0, Suc 0]"
    by (simp add: resolution_order_of_def)
  from is_subtype_irreflexive[OF hierarchy_derived_run modern order wf, of 0 py3]
    hierarchy_derived_run[of 0] modern order wf
  show ?thesis by blast
qed

lemma type_check_result:
  assumes first: "has_known_bases n s t1 = Some (Inr k1, s1)"
    and second: "has_known_bases n s1 t2 = Some (Inr k2, s2)"
  shows "returned (type_check n e s t1 t2) =
     Some (Inr (if \<not> (k1 \<and> k2) then YES
                else if \<not> (newstyle (s t1) \<and> newstyle (s t2)) then Definite False
                else (case mro (s t2) of
                        None \<Rightarrow> YES
                      | Some order \<Rightarrow> Definite (t1 \<in> set (butlast order)))))"
proof (cases "\<not> PY2 e \<and> \<not> k1")
  case True
  then have "all_known_bases n e s t1 t2 = Some (Inr False, s1)"
    by (simp add: all_known_bases_def first)
  with True show ?thesis
    by (simp add: type_check_def returned_def)
next
  case False
  then have both: "all_known_bases n e s t1 t2 = Some (Inr (k1 \<and> k2), s2)"
    by (auto simp add: all_known_bases_def first second)
  have a: "\<And>c. (s1 c)\<lparr>all_bases_known := None\<rparr> = (s c)\<lparr>all_bases_known := None\<rparr>"
    by (rule run_frame[OF first])
  have b: "\<And>c. (s2 c)\<lparr>all_bases_known := None\<rparr> = (s1 c)\<lparr>all_bases_known := None\<rparr>"
    by (rule run_frame[OF second])
  have same: "\<And>c. newstyle (s2 c) = newstyle (s c)" "\<And>c. mro (s2 c) = mro (s c)"
    using static_fields(2,3)[OF a] static_fields(2,3)[OF b] by simp_all
  show ?thesis
    by (simp add: type_check_def both same returned_def split: option.splits)
qed


lemma hierarchy_c3_at:
  "hierarchy_c3 0 = plain_class\<lparr>name := ''Base'', mro := Some [0]\<rparr>"
  "hierarchy_c3 (Suc 0) = plain_class\<lparr>name := ''Derived'', bases := [class_node 0], mro := Some [Suc 0, 0]\<rparr>"
  by (simp_all add: hierarchy_c3_def)

lemma hierarchy_runs:
  "has_known_bases (Suc (Suc 0)) hierarchy 0 = Some (Inr True, set_all_bases_known hierarchy 0 True)"
  "has_known_bases (Suc (Suc 0)) (set_all_bases_known hierarchy 0 True) (Suc 0) =
     Some (Inr True, set_all_bases_known (set_all_bases_known hierarchy 0 True) (Suc 0) True)"
  "has_known_bases (Suc (Suc 0))
     (set_all_bases_known (set_all_bases_known hierarchy 0 True) (Suc 0) True) 0 =
     Some (Inr True, set_all_bases_known (set_all_bases_known hierarchy 0 True) (Suc 0) True)"
  by (simp_all add: hierarchy_at plain_class_def class_node_infer flag_lookup)

lemma hierarchy_c3_runs:
  "has_known_bases (Suc (Suc 0)) hierarchy_c3 0 = Some (Inr True, set_all_bases_known hierarchy_c3 0 True)"
  "has_known_bases (Suc (Suc 0)) (set_all_bases_known hierarchy_c3 0 True) (Suc 0) =
     Some (Inr True, set_all_bases_known (set_all_bases_known hierarchy_c3 0 True) (Suc 0) True)"
  "has_known_bases (Suc (Suc 0)) hierarchy_c3 (Suc 0) =
     Some (Inr True, set_all_bases_known (set_all_bases_known hierarchy_c3 0 True) (Suc 0) True)"
  "has_known_bases (Suc (Suc 0))
     (set_all_bases_known (set_all_bases_known hierarchy_c3 0 True) (Suc 0) True) 0 =
     Some (Inr True, set_all_bases_known (set_all_bases_known hierarchy_c3 0 True) (Suc 0) True)"
  by (simp_all add: hierarchy_c3_at plain_class_def class_node_infer flag_lookup)

text \<open>
  C1, as amended. \<^verbatim>\<open>is_subtype(A, B)\<close> is \<^verbatim>\<open>_type_check(B, A)\<close>: it calls
  \<^verbatim>\<open>has_known_bases\<close> on \<open>B\<close>, then on \<open>A\<close>. When both calls return, it returns
  \<^verbatim>\<open>util.YES\<close> if one of them returned false; else false if one of the classes is not
  new-style; else \<^verbatim>\<open>util.YES\<close> if \<^verbatim>\<open>A.mro()\<close> raises \<^verbatim>\<open>MroError\<close>; else whether \<open>B\<close>
  stands in the resolution order of \<open>A\<close> without its last entry. The test is on the
  order of the first argument: in the scenario of the spec, \<^verbatim>\<open>is_subtype(Derived, Base)\<close>
  is true and \<^verbatim>\<open>is_subtype(Base, Derived)\<close> is false.
\<close>

theorem is_subtype_decides:
  assumes "has_known_bases n s B = Some (Inr kb, s1)"
    and "has_known_bases n s1 A = Some (Inr ka, s2)"
  shows "returned (is_subtype n e s A B) =
     Some (Inr (if \<not> (ka \<and> kb) then YES
                else if \<not> (newstyle (s A) \<and> newstyle (s B)) then Definite False
                else (case mro (s A) of
                        None \<Rightarrow> YES
                      | Some order \<Rightarrow> Definite (B \<in> set (butlast order)))))"
  unfolding is_subtype_def using type_check_result[OF assms, of e]
  by (simp add: conj_commute)

theorem is_subtype_decides_witness:
  "has_known_bases (Suc (Suc 0)) hierarchy 0 = Some (Inr True, set_all_bases_known hierarchy 0 True)
   \<and> has_known_bases (Suc (Suc 0)) (set_all_bases_known hierarchy 0 True) (Suc 0) =
       Some (Inr True, set_all_bases_known (set_all_bases_known hierarchy 0 True) (Suc 0) True)
   \<and> returned (is_subtype (Suc (Suc 0)) py3 hierarchy (Suc 0) 0) = Some (Inr (Definite True))
   \<and> returned (is_subtype (Suc (Suc 0)) py3 hierarchy 0 (Suc 0)) = Some (Inr (Definite False))"
proof -
  have fields: "newstyle (hierarchy 0)" "newstyle (hierarchy (Suc 0))"
    "mro (hierarchy (Suc 0)) = Some [0, Suc 0]" "mro (hierarchy 0) = Some [0]"
    by (simp_all add: hierarchy_at plain_class_def)
  from is_subtype_decides[OF hierarchy_runs(1) hierarchy_runs(2), of py3] fields
  have down: "returned (is_subtype (Suc (Suc 0)) py3 hierarchy (Suc 0) 0) = Some (Inr (Definite True))"
    by simp
  from is_subtype_decides[OF hierarchy_derived_run hierarchy_runs(3), of py3] fields
  have up: "returned (is_subtype (Suc (Suc 0)) py3 hierarchy 0 (Suc 0)) = Some (Inr (Definite False))"
    by simp
  from hierarchy_runs(1,2) down up show ?thesis by blast
qed

text \<open>
  C1 as stated fails in the scenario of the spec: \<^verbatim>\<open>Base\<close> stands in the resolution
  order of \<^verbatim>\<open>Derived\<close> before \<^verbatim>\<open>Derived\<close> itself, and yet \<^verbatim>\<open>is_subtype(Base, Derived)\<close>
  returns false, while \<^verbatim>\<open>is_subtype(Derived, Base)\<close> returns true. With the orders of
  Python's linearisation \<^verbatim>\<open>is_subtype(Base, Derived)\<close> is false as well.
\<close>

theorem is_subtype_direction_counterexample:
  "mro (hierarchy (Suc 0)) = Some [0, Suc 0] \<and> 0 \<in> set (butlast [0, Suc 0])
   \<and> returned (is_subtype (Suc (Suc 0)) py3 hierarchy 0 (Suc 0)) = Some (Inr (Definite False))
   \<and> returned (is_subtype (Suc (Suc 0)) py3 hierarchy (Suc 0) 0) = Some (Inr (Definite True))
   \<and> returned (is_subtype (Suc (Suc 0)) py3 hierarchy_c3 0 (Suc 0)) = Some (Inr (Definite False))"
proof -
  have fields: "newstyle (hierarchy 0)" "newstyle (hierarchy (Suc 0))"
    "mro (hierarchy (Suc 0)) = Some [0, Suc 0]" "mro (hierarchy 0) = Some [0]"
    by (simp_all add: hierarchy_at plain_class_def)
  have fields_c3: "newstyle (hierarchy_c3 0)" "newstyle (hierarchy_c3 (Suc 0))"
    "mro (hierarchy_c3 (Suc 0)) = Some [Suc 0, 0]" "mro (hierarchy_c3 0) = Some [0]"
    by (simp_all add: hierarchy_c3_at plain_class_def)
  from type_check_result[OF hierarchy_derived_run hierarchy_runs(3), of py3] fields
  have a: "returned (is_subtype (Suc (Suc 0)) py3 hierarchy 0 (Suc 0)) = Some (Inr (Definite False))"
    by (simp add: is_subtype_def)
  from type_check_result[OF hierarchy_runs(1) hierarchy_runs(2), of py3] fields
  have b: "returned (is_subtype (Suc (Suc 0)) py3 hierarchy (Suc 0) 0) = Some (Inr (Definite True))"
    by (simp add: is_subtype_def)
  from type_check_result[OF hierarchy_c3_runs(3) hierarchy_c3_runs(4), of py3] fields_c3
  have c: "returned (is_subtype (Suc (Suc 0)) py3 hierarchy_c3 0 (Suc 0)) = Some (Inr (Definite False))"
    by (simp add: is_subtype_def)
  from fields(3) a b c show ?thesis by simp
qed

section \<open>\<^verbatim>\<open>has_known_bases\<close> against the four checks\<close>

lemma bases_of_set_flag: "bases_of (set_all_bases_known s k b) = bases_of s"
  by (rule ext) (simp add: bases_of_def set_all_bases_known_def)

lemma flags_accurate_set:
  assumes "flags_accurate s"
    and "b \<Longrightarrow> bases_all_known (bases_of s) k"
    and "\<not> b \<Longrightarrow> bases_not_known (bases_of s) k"
  shows "flags_accurate (set_all_bases_known s k b)"
  unfolding flags_accurate_def bases_of_set_flag
proof (intro allI conjI impI)
  fix c
  assume "all_bases_known (set_all_bases_known s k b c) = Some True"
  then show "bases_all_known (bases_of s) c"
    using assms(1,2) by (cases "c = k") (auto simp: flag_lookup flags_accurate_def)
next
  fix c
  assume "all_bases_known (set_all_bases_known s k b c) = Some False"
  then show "bases_not_known (bases_of s) c"
    using assms(1,3) by (cases "c = k") (auto simp: flag_lookup flags_accurate_def)
qed

lemma loop_bases_of:
  assumes "bases_loop n s k bs = Some (r, s')"
  shows "bases_of s' = bases_of s"
proof
  fix c
  from run_frame_both assms
  have "(s' c)\<lparr>all_bases_known := None\<rparr> = (s c)\<lparr>all_bases_known := None\<rparr>" by blast
  then show "bases_of s' c = bases_of s c"
    unfolding bases_of_def by (rule static_fields(1))
qed

lemma run_sound_both:
  "(\<forall>n s k r s'. has_known_bases n s k = Some (r, s') \<longrightarrow>
      (flags_accurate s \<longrightarrow>
         flags_accurate s' \<and> (r = Inr True \<longrightarrow> bases_all_known (bases_of s) k) \<and>
         (r = Inr False \<longrightarrow> bases_not_known (bases_of s) k))) \<and>
   (\<forall>n s k (bs :: node list) r s'. bases_loop n s k bs = Some (r, s') \<longrightarrow>
      (flags_accurate s \<longrightarrow>
        (\<forall>before. bases_of s k = before @ bs \<longrightarrow>
           (\<forall>p \<in> set before. base_passes (bases_of s) k p) \<longrightarrow>
           flags_accurate s' \<and> (r = Inr True \<longrightarrow> bases_all_known (bases_of s) k) \<and>
           (r = Inr False \<longrightarrow> bases_not_known (bases_of s) k))))"
proof (rule hkb_runs, goal_cases)
  case (1 n s k b)
  then show ?case by (auto simp: flags_accurate_def)
next
  case (2 n s k r s')
  have "bases_of s k = [] @ bases (s k)" by (simp add: bases_of_def)
  with 2(3) show ?case by (metis empty_iff empty_set)
next
  case (3 n s k)
  show ?case
  proof (intro impI allI)
    fix before
    assume acc: "flags_accurate s" and all: "bases_of s k = before @ []"
      and pass: "\<forall>p \<in> set before. base_passes (bases_of s) k p"
    have known: "bases_all_known (bases_of s) k"
    proof (rule all_pass)
      fix base assume "base \<in> set (bases_of s k)"
      with all pass have "base_passes (bases_of s) k base" by simp
      then show "\<exists>D. safe_infer base = Inr (Some (ClassDef D)) \<and> D \<noteq> k \<and> bases_all_known (bases_of s) D"
        by (simp add: base_passes_def)
    qed
    with flags_accurate_set[OF acc, of True k]
    show "flags_accurate (set_all_bases_known s k True) \<and>
          (Inr True = (Inr True :: exn + bool) \<longrightarrow> bases_all_known (bases_of s) k) \<and>
          ((Inr True :: exn + bool) = Inr False \<longrightarrow> bases_not_known (bases_of s) k)"
      by simp
  qed
next
  case (4 n s k base rest x)
  then show ?case by simp
next
  case (5 n s k base rest v)
  show ?case
  proof (intro impI allI)
    fix before
    assume acc: "flags_accurate s" and all: "bases_of s k = before @ base # rest"
      and pass: "\<forall>p \<in> set before. base_passes (bases_of s) k p"
    have unknown: "bases_not_known (bases_of s) k"
    proof (cases v)
      case None
      with 5(1) unresolved[OF all pass] show ?thesis by simp
    next
      case (Some w)
      with 5(2) have "\<forall>D. w \<noteq> ClassDef D" by simp
      with 5(1) Some not_a_class[OF all pass] show ?thesis by simp
    qed
    with flags_accurate_set[OF acc, of False k]
    show "flags_accurate (set_all_bases_known s k False) \<and>
          ((Inr False :: exn + bool) = Inr True \<longrightarrow> bases_all_known (bases_of s) k) \<and>
          (Inr False = (Inr False :: exn + bool) \<longrightarrow> bases_not_known (bases_of s) k)"
      by simp
  qed
next
  case (6 n s k base rest)
  show ?case
  proof (intro impI allI)
    fix before
    assume acc: "flags_accurate s" and all: "bases_of s k = before @ base # rest"
      and pass: "\<forall>p \<in> set before. base_passes (bases_of s) k p"
    have unknown: "bases_not_known (bases_of s) k"
      by (rule itself[OF all pass 6])
    with flags_accurate_set[OF acc, of False k]
    show "flags_accurate (set_all_bases_known s k False) \<and>
          ((Inr False :: exn + bool) = Inr True \<longrightarrow> bases_all_known (bases_of s) k) \<and>
          (Inr False = (Inr False :: exn + bool) \<longrightarrow> bases_not_known (bases_of s) k)"
      by simp
  qed
next
  case (7 n s k base rest d x s1)
  then show ?case by simp
next
  case (8 n s k base rest d s1)
  show ?case
  proof (intro impI allI)
    fix before
    assume acc: "flags_accurate s" and all: "bases_of s k = before @ base # rest"
      and pass: "\<forall>p \<in> set before. base_passes (bases_of s) k p"
    from 8(4) acc have acc1: "flags_accurate s1" and nk: "bases_not_known (bases_of s) d" by simp_all
    have same: "bases_of s1 = bases_of s" by (rule run_bases_of[OF 8(3)])
    have unknown: "bases_not_known (bases_of s) k"
      by (rule inherited[OF all pass 8(1) 8(2) nk])
    with flags_accurate_set[OF acc1, of False k] same
    show "flags_accurate (set_all_bases_known s1 k False) \<and>
          ((Inr False :: exn + bool) = Inr True \<longrightarrow> bases_all_known (bases_of s) k) \<and>
          (Inr False = (Inr False :: exn + bool) \<longrightarrow> bases_not_known (bases_of s) k)"
      by simp
  qed
next
  case (9 n s k base rest d s1 r s')
  show ?case
  proof (intro impI allI)
    fix before
    assume acc: "flags_accurate s" and all: "bases_of s k = before @ base # rest"
      and pass: "\<forall>p \<in> set before. base_passes (bases_of s) k p"
    from 9(4) acc have acc1: "flags_accurate s1" and ak: "bases_all_known (bases_of s) d" by simp_all
    have same: "bases_of s1 = bases_of s" by (rule run_bases_of[OF 9(3)])
    from 9(1,2) ak have "base_passes (bases_of s) k base" by (auto simp: base_passes_def)
    with pass have pass': "\<forall>p \<in> set (before @ [base]). base_passes (bases_of s1) k p"
      by (simp add: same)
    from all have all': "bases_of s1 k = (before @ [base]) @ rest" by (simp add: same)
    from 9(6) acc1 all' pass'
    have "flags_accurate s' \<and> (r = Inr True \<longrightarrow> bases_all_known (bases_of s1) k) \<and>
          (r = Inr False \<longrightarrow> bases_not_known (bases_of s1) k)" by blast
    then show "flags_accurate s' \<and> (r = Inr True \<longrightarrow> bases_all_known (bases_of s) k) \<and>
          (r = Inr False \<longrightarrow> bases_not_known (bases_of s) k)" by (simp add: same)
  qed
qed


lemma run_sound:
  assumes "has_known_bases n s k = Some (r, s')" "flags_accurate s"
  shows "flags_accurate s'"
    and "r = Inr True \<Longrightarrow> bases_all_known (bases_of s) k"
    and "r = Inr False \<Longrightarrow> bases_not_known (bases_of s) k"
  using run_sound_both assms by blast+

lemma known_excludes_unknown:
  "bases_all_known B C \<Longrightarrow> \<not> bases_not_known B C"
proof (induction rule: bases_all_known.induct)
  case (all_pass C)
  show ?case
  proof
    assume "bases_not_known B C"
    then show False
    proof (cases rule: bases_not_known.cases)
      case (unresolved before base after)
      then have "base \<in> set (B C)" by simp
      with all_pass unresolved(3) show False by fastforce
    next
      case (not_a_class before base after v)
      then have "base \<in> set (B C)" by simp
      with all_pass not_a_class(3,4) show False by fastforce
    next
      case (itself before base after)
      then have "base \<in> set (B C)" by simp
      with all_pass itself(3) show False by fastforce
    next
      case (inherited before base after D)
      then have "base \<in> set (B C)" by simp
      with all_pass inherited(3,5) show False by fastforce
    qed
  qed
qed

text \<open>The loop passes a prefix of bases whose classes are each found known.\<close>

lemma loop_passes_prefix:
  assumes "\<forall>p \<in> set before. \<exists>D. safe_infer p = Inr (Some (ClassDef D)) \<and> D \<noteq> C \<and>
             (\<forall>t. flags_accurate t \<longrightarrow> bases_of t = B \<longrightarrow>
                (\<exists>n t'. has_known_bases n t D = Some (Inr True, t')))"
    and "flags_accurate s" "bases_of s = B"
  shows "\<exists>n s1. flags_accurate s1 \<and> bases_of s1 = B \<and>
           (\<forall>m \<ge> n. \<forall>rest. bases_loop m s C (before @ rest) = bases_loop m s1 C rest)"
  using assms
proof (induction before arbitrary: s)
  case Nil
  then show ?case by auto
next
  case (Cons p ps)
  from Cons.prems(1) obtain D where D: "safe_infer p = Inr (Some (ClassDef D))" "D \<noteq> C"
    and fin: "\<forall>t. flags_accurate t \<longrightarrow> bases_of t = B \<longrightarrow>
                (\<exists>n t'. has_known_bases n t D = Some (Inr True, t'))"
    by auto
  from fin Cons.prems(2,3) obtain n1 t' where run: "has_known_bases n1 s D = Some (Inr True, t')"
    by blast
  have acc: "flags_accurate t'" by (rule run_sound(1)[OF run Cons.prems(2)])
  have same: "bases_of t' = B" using run_bases_of[OF run] Cons.prems(3) by simp
  from Cons.prems(1) have rest_ok: "\<forall>p \<in> set ps. \<exists>D. safe_infer p = Inr (Some (ClassDef D)) \<and> D \<noteq> C \<and>
             (\<forall>t. flags_accurate t \<longrightarrow> bases_of t = B \<longrightarrow>
                (\<exists>n t'. has_known_bases n t D = Some (Inr True, t')))" by simp
  from Cons.IH[OF rest_ok acc same] obtain n2 s1 where s1: "flags_accurate s1" "bases_of s1 = B"
    and eq: "\<forall>m \<ge> n2. \<forall>rest. bases_loop m t' C (ps @ rest) = bases_loop m s1 C rest" by blast
  have "\<forall>m \<ge> max n1 n2. \<forall>rest. bases_loop m s C ((p # ps) @ rest) = bases_loop m s1 C rest"
  proof (intro allI impI)
    fix m rest assume m: "max n1 n2 \<le> m"
    then have "has_known_bases m s D = Some (Inr True, t')"
      using run_fuel[OF run, of m] by simp
    then have "bases_loop m s C (p # (ps @ rest)) = bases_loop m t' C (ps @ rest)"
      by (simp del: bases_loop.simps add: bases_loop_rec[OF D])
    also have "\<dots> = bases_loop m s1 C rest" using eq m by simp
    finally show "bases_loop m s C ((p # ps) @ rest) = bases_loop m s1 C rest" by simp
  qed
  with s1 show ?case by blast
qed

lemma known_returns_true:
  "bases_all_known B C \<Longrightarrow> flags_accurate s \<Longrightarrow> bases_of s = B \<Longrightarrow>
     \<exists>n s'. has_known_bases n s C = Some (Inr True, s')"
proof (induction arbitrary: s rule: bases_all_known.induct)
  case (all_pass C)
  have known: "bases_all_known B C"
    by (rule bases_all_known.all_pass) (use all_pass.IH in blast)
  show ?case
  proof (cases "all_bases_known (s C)")
    case (Some b)
    have "b"
    proof (rule ccontr)
      assume "\<not> b"
      with Some all_pass.prems have "bases_not_known B C" by (auto simp: flags_accurate_def)
      with known_excludes_unknown[OF known] show False by simp
    qed
    with Some have "has_known_bases (Suc 0) s C = Some (Inr True, s)" by simp
    then show ?thesis by blast
  next
    case None
    have pre: "\<forall>p \<in> set (B C). \<exists>D. safe_infer p = Inr (Some (ClassDef D)) \<and> D \<noteq> C \<and>
             (\<forall>t. flags_accurate t \<longrightarrow> bases_of t = B \<longrightarrow>
                (\<exists>n t'. has_known_bases n t D = Some (Inr True, t')))"
      using all_pass.IH by blast
    from loop_passes_prefix[OF pre all_pass.prems] obtain n s1 where
      eq: "\<forall>m \<ge> n. \<forall>rest. bases_loop m s C (B C @ rest) = bases_loop m s1 C rest" by blast
    then have "bases_loop n s C (B C @ []) = bases_loop n s1 C []" by blast
    then have "bases_loop n s C (bases (s C)) = Some (Inr True, set_all_bases_known s1 C True)"
      using all_pass.prems(2) by (simp add: bases_of_def[symmetric])
    with None have "has_known_bases (Suc n) s C = Some (Inr True, set_all_bases_known s1 C True)"
      by simp
    then show ?thesis by blast
  qed
qed


lemma passing_prefix_runs:
  assumes "\<forall>p \<in> set before. base_passes B C p"
  shows "\<forall>p \<in> set before. \<exists>D. safe_infer p = Inr (Some (ClassDef D)) \<and> D \<noteq> C \<and>
             (\<forall>t. flags_accurate t \<longrightarrow> bases_of t = B \<longrightarrow>
                (\<exists>n t'. has_known_bases n t D = Some (Inr True, t')))"
proof
  fix p assume "p \<in> set before"
  with assms obtain D where D: "safe_infer p = Inr (Some (ClassDef D))" "D \<noteq> C" "bases_all_known B D"
    by (auto simp: base_passes_def)
  from known_returns_true[OF D(3)] D(1,2)
  show "\<exists>D. safe_infer p = Inr (Some (ClassDef D)) \<and> D \<noteq> C \<and>
             (\<forall>t. flags_accurate t \<longrightarrow> bases_of t = B \<longrightarrow>
                (\<exists>n t'. has_known_bases n t D = Some (Inr True, t')))" by blast
qed

text \<open>
  Once the loop has passed the bases before a base on which it returns false, the call
  returns false.
\<close>

lemma returns_false_at:
  assumes split: "B C = before @ base # after"
    and pass: "\<forall>p \<in> set before. base_passes B C p"
    and acc: "flags_accurate s" and same: "bases_of s = B"
    and unknown: "bases_not_known B C"
    and step: "\<And>s1. flags_accurate s1 \<Longrightarrow> bases_of s1 = B \<Longrightarrow>
                 \<exists>n s'. bases_loop n s1 C (base # after) = Some (Inr False, s')"
  shows "\<exists>n s'. has_known_bases n s C = Some (Inr False, s')"
proof (cases "all_bases_known (s C)")
  case (Some b)
  have "\<not> b"
  proof
    assume "b"
    with Some acc same have "bases_all_known B C" by (auto simp: flags_accurate_def)
    from known_excludes_unknown[OF this] unknown show False by simp
  qed
  with Some have "has_known_bases (Suc 0) s C = Some (Inr False, s)" by simp
  then show ?thesis by blast
next
  case None
  from loop_passes_prefix[OF passing_prefix_runs[OF pass] acc same] obtain n s1 where
    s1: "flags_accurate s1" "bases_of s1 = B"
    and eq: "\<forall>m \<ge> n. \<forall>rest. bases_loop m s C (before @ rest) = bases_loop m s1 C rest" by blast
  from step[OF s1] obtain n' s' where run: "bases_loop n' s1 C (base # after) = Some (Inr False, s')"
    by blast
  have "bases_loop (max n n') s1 C (base # after) = Some (Inr False, s')"
    by (rule loop_fuel[OF run]) simp
  moreover have "bases_loop (max n n') s C (before @ base # after) = bases_loop (max n n') s1 C (base # after)"
    using eq by simp
  ultimately have "bases_loop (max n n') s C (bases (s C)) = Some (Inr False, s')"
    using split same by (simp add: bases_of_def[symmetric])
  with None have "has_known_bases (Suc (max n n')) s C = Some (Inr False, s')" by simp
  then show ?thesis by blast
qed

lemma unknown_returns_false:
  "bases_not_known B C \<Longrightarrow> flags_accurate s \<Longrightarrow> bases_of s = B \<Longrightarrow>
     \<exists>n s'. has_known_bases n s C = Some (Inr False, s')"
proof (induction arbitrary: s rule: bases_not_known.induct)
  case (unresolved C before base after)
  have unknown: "bases_not_known B C"
    by (rule bases_not_known.unresolved[OF unresolved(1,2,3)])
  show ?case
  proof (rule returns_false_at[OF unresolved(1,2) unresolved.prems unknown])
    fix s1
    have "bases_loop 0 s1 C (base # after) = Some (Inr False, set_all_bases_known s1 C False)"
      by (rule bases_loop_no_class[OF unresolved(3)]) simp
    then show "\<exists>n s'. bases_loop n s1 C (base # after) = Some (Inr False, s')" by blast
  qed
next
  case (not_a_class C before base after v)
  have unknown: "bases_not_known B C"
    by (rule bases_not_known.not_a_class[OF not_a_class(1,2,3,4)])
  show ?case
  proof (rule returns_false_at[OF not_a_class(1,2) not_a_class.prems unknown])
    fix s1
    have "bases_loop 0 s1 C (base # after) = Some (Inr False, set_all_bases_known s1 C False)"
      by (rule bases_loop_no_class[OF not_a_class(3)]) (use not_a_class(4) in simp)
    then show "\<exists>n s'. bases_loop n s1 C (base # after) = Some (Inr False, s')" by blast
  qed
next
  case (itself C before base after)
  have unknown: "bases_not_known B C"
    by (rule bases_not_known.itself[OF itself(1,2,3)])
  show ?case
  proof (rule returns_false_at[OF itself(1,2) itself.prems unknown])
    fix s1
    have "bases_loop 0 s1 C (base # after) = Some (Inr False, set_all_bases_known s1 C False)"
      by (rule bases_loop_itself[OF itself(3)])
    then show "\<exists>n s'. bases_loop n s1 C (base # after) = Some (Inr False, s')" by blast
  qed
next
  case (inherited C before base after D)
  have unknown: "bases_not_known B C"
    by (rule bases_not_known.inherited[OF inherited(1,2,3,4,5)])
  show ?case
  proof (rule returns_false_at[OF inherited(1,2) inherited.prems unknown])
    fix s1 assume "flags_accurate s1" "bases_of s1 = B"
    from inherited.IH[OF this] obtain n t' where "has_known_bases n s1 D = Some (Inr False, t')"
      by blast
    then have "bases_loop n s1 C (base # after) = Some (Inr False, set_all_bases_known t' C False)"
      by (simp del: bases_loop.simps add: bases_loop_rec[OF inherited(3,4)])
    then show "\<exists>n s'. bases_loop n s1 C (base # after) = Some (Inr False, s')" by blast
  qed
qed

text \<open>
  C5, as amended. In a store whose memoised flags are right (for one, a store with no
  flag set), \<^verbatim>\<open>has_known_bases(C)\<close> returns true when every direct base passes the four
  checks (\<open>bases_all_known\<close>; so it does for a class with no base); it returns false
  when, in declaration order, a base fails one of the four checks and the bases before
  it pass (\<open>bases_not_known\<close>); and whenever it returns a boolean, the boolean is the
  one of these two that holds. A base fails the first check when \<^verbatim>\<open>safe_infer\<close> returns
  \<^verbatim>\<open>None\<close> for it. Nothing is said of a class for which neither holds.
\<close>

theorem has_known_bases_checks:
  assumes "flags_accurate s"
  shows "(bases_all_known (bases_of s) C \<longrightarrow> (\<exists>n s'. has_known_bases n s C = Some (Inr True, s')))
       \<and> (bases_not_known (bases_of s) C \<longrightarrow> (\<exists>n s'. has_known_bases n s C = Some (Inr False, s')))
       \<and> (\<forall>n b s'. has_known_bases n s C = Some (Inr b, s') \<longrightarrow>
             (if b then bases_all_known (bases_of s) C else bases_not_known (bases_of s) C))"
proof (intro conjI impI allI)
  assume "bases_all_known (bases_of s) C"
  from known_returns_true[OF this assms refl]
  show "\<exists>n s'. has_known_bases n s C = Some (Inr True, s')" .
next
  assume "bases_not_known (bases_of s) C"
  from unknown_returns_false[OF this assms refl]
  show "\<exists>n s'. has_known_bases n s C = Some (Inr False, s')" .
next
  fix n b s'
  assume run: "has_known_bases n s C = Some (Inr b, s')"
  show "if b then bases_all_known (bases_of s) C else bases_not_known (bases_of s) C"
    using run_sound(2,3)[OF run assms] by (cases b) simp_all
qed

lemma no_flag_accurate: "\<forall>c. all_bases_known (s c) = None \<Longrightarrow> flags_accurate s"
  by (simp add: flags_accurate_def)

lemma hierarchy_accurate: "flags_accurate hierarchy"
  by (rule no_flag_accurate) (simp add: hierarchy_def plain_class_def)

lemma self_cyclic_accurate: "flags_accurate self_cyclic"
  by (rule no_flag_accurate) (simp add: self_cyclic_def plain_class_def)

lemma hierarchy_base_known: "bases_all_known (bases_of hierarchy) 0"
  by (rule all_pass) (simp add: bases_of_def hierarchy_at plain_class_def)

lemma hierarchy_derived_known: "bases_all_known (bases_of hierarchy) (Suc 0)"
proof (rule all_pass)
  fix base assume "base \<in> set (bases_of hierarchy (Suc 0))"
  then have "base = class_node 0" by (simp add: bases_of_def hierarchy_at)
  with hierarchy_base_known class_node_infer[of 0]
  show "\<exists>D. safe_infer base = Inr (Some (ClassDef D)) \<and> D \<noteq> Suc 0 \<and> bases_all_known (bases_of hierarchy) D"
    by auto
qed

lemma self_cyclic_unknown: "bases_not_known (bases_of self_cyclic) 0"
proof (rule itself)
  show "bases_of self_cyclic 0 = [] @ class_node 0 # []"
    by (simp add: bases_of_def self_cyclic_def)
  show "\<forall>p \<in> set []. base_passes (bases_of self_cyclic) 0 p" by simp
  show "safe_infer (class_node 0) = Inr (Some (ClassDef 0))" by (rule class_node_infer)
qed

theorem has_known_bases_checks_witness:
  "flags_accurate hierarchy \<and> bases_all_known (bases_of hierarchy) (Suc 0)
   \<and> (\<exists>n s'. has_known_bases n hierarchy (Suc 0) = Some (Inr True, s'))
   \<and> flags_accurate self_cyclic \<and> bases_not_known (bases_of self_cyclic) 0
   \<and> (\<exists>n s'. has_known_bases n self_cyclic 0 = Some (Inr False, s'))
   \<and> has_known_bases (Suc 0) hierarchy 0 = Some (Inr True, set_all_bases_known hierarchy 0 True)
   \<and> bases_all_known (bases_of hierarchy) 0"
proof -
  from has_known_bases_checks[OF hierarchy_accurate, of "Suc 0"] hierarchy_derived_known
  have a: "\<exists>n s'. has_known_bases n hierarchy (Suc 0) = Some (Inr True, s')" by blast
  from has_known_bases_checks[OF self_cyclic_accurate, of 0] self_cyclic_unknown
  have b: "\<exists>n s'. has_known_bases n self_cyclic 0 = Some (Inr False, s')" by blast
  have run: "has_known_bases (Suc 0) hierarchy 0 = Some (Inr True, set_all_bases_known hierarchy 0 True)"
    by (rule hierarchy_base_run)
  from has_known_bases_checks[OF hierarchy_accurate, of 0] run
  have c: "bases_all_known (bases_of hierarchy) 0" by (metis (full_types))
  from hierarchy_accurate hierarchy_derived_known a self_cyclic_accurate self_cyclic_unknown b run c
  show ?thesis by blast
qed

lemma cyclic_at:
  "cyclic 0 = plain_class\<lparr>name := ''A'', bases := [class_node (Suc 0)]\<rparr>"
  "cyclic (Suc 0) = plain_class\<lparr>name := ''B'', bases := [class_node 0]\<rparr>"
  by (simp_all add: cyclic_def)

lemma cyclic_diverges:
  "has_known_bases n cyclic 0 = None \<and> has_known_bases n cyclic (Suc 0) = None"
proof (induction n)
  case 0
  show ?case by simp
next
  case (Suc n)
  then show ?case
    by (simp add: cyclic_at plain_class_def class_node_infer)
qed

lemma cyclic_then_failing_at:
  "cyclic_then_failing 0 = plain_class\<lparr>name := ''A'', bases := [class_node (Suc 0)]\<rparr>"
  "cyclic_then_failing (Suc 0) = plain_class\<lparr>name := ''B'', bases := [class_node 0]\<rparr>"
  "cyclic_then_failing 2 = plain_class\<lparr>name := ''C'', bases := [class_node 0, node_of Fails]\<rparr>"
  by (simp_all add: cyclic_then_failing_def cyclic_def)

lemma cyclic_then_failing_diverges:
  "has_known_bases n cyclic_then_failing 0 = None \<and>
   has_known_bases n cyclic_then_failing (Suc 0) = None"
proof (induction n)
  case 0
  show ?case by simp
next
  case (Suc n)
  then show ?case
    by (simp add: cyclic_then_failing_at plain_class_def class_node_infer)
qed

text \<open>
  C5 as stated fails on the class at 2 of \<open>cyclic_then_failing\<close>: its second base does
  not resolve (\<^verbatim>\<open>safe_infer\<close> returns \<^verbatim>\<open>None\<close>), but its first base is a class of an
  inheritance cycle of length two, on which the recursion never ends: the call returns
  nothing, at any depth.
\<close>

theorem has_known_bases_cycle_counterexample:
  "bases (cyclic_then_failing 2) = [class_node 0, node_of Fails]
   \<and> safe_infer (node_of Fails) = Inr None
   \<and> all_bases_known (cyclic_then_failing 2) = None
   \<and> (\<forall>n. has_known_bases n cyclic_then_failing 2 = None)"
proof -
  have "has_known_bases n cyclic_then_failing 2 = None" for n
  proof (cases n)
    case 0
    then show ?thesis by simp
  next
    case (Suc m)
    with cyclic_then_failing_diverges[of m] show ?thesis
      by (simp add: cyclic_then_failing_at plain_class_def class_node_infer)
  qed
  then show ?thesis
    by (simp add: cyclic_then_failing_at plain_class_def node_of_def safe_infer_def)
qed

section \<open>\<^verbatim>\<open>class_instance_as_index\<close>: the first integer constant\<close>

lemma results_loop_chain:
  "first_int_const (chain g k) =
     (case results_loop g of Found r \<Rightarrow> Some r | Exhausted \<Rightarrow> first_int_const k | Raised \<Rightarrow> None)"
proof (induction g)
  case (Yield x g)
  then show ?case by (cases x) simp_all
qed simp_all

lemma index_loop_first: "index_loop attr = first_int_const (call_results attr)"
proof (induction attr)
  case (Yield x attr)
  then show ?case by (cases x) (simp_all add: results_loop_chain split: search.splits)
qed simp_all

lemma first_int_const_yielded:
  "first_int_const g = Some r \<Longrightarrow> r \<in> set (yielded g) \<and> is_int_const r"
  by (induction g) (auto split: if_splits)

lemma yielded_chain: "set (yielded (chain g k)) \<subseteq> set (yielded g) \<union> set (yielded k)"
  by (induction g) auto

lemma yielded_call_results: "set (yielded (call_results attr)) \<subseteq> set (all_call_results attr)"
proof (induction attr)
  case (Yield x attr)
  then show ?case
    using yielded_chain by (cases x) (fastforce simp: all_call_results_def)+
qed (simp_all add: all_call_results_def)

text \<open>
  C7, as amended. \<^verbatim>\<open>class_instance_as_index\<close> returns the first integer constant of the
  call results it enumerates (the \<^verbatim>\<open>__index__\<close> candidates in order, those that are no
  bound method skipped, the call results of each bound method in order) up to the first
  \<^verbatim>\<open>InferenceError\<close>, which ends the enumeration; it returns \<^verbatim>\<open>None\<close> when there is
  none. What it returns is an integer constant; and when no call result of any bound
  method is one, it returns \<^verbatim>\<open>None\<close>. It never raises.
\<close>

theorem class_instance_as_index_first:
  "class_instance_as_index nd = Inr (first_int_const (call_results (igetattr nd ''__index__'')))
   \<and> (\<forall>r. class_instance_as_index nd = Inr (Some r) \<longrightarrow> is_int_const r)
   \<and> ((\<forall>r \<in> set (all_call_results (igetattr nd ''__index__'')). \<not> is_int_const r) \<longrightarrow>
        class_instance_as_index nd = Inr None)"
proof (intro conjI allI impI)
  show eq: "class_instance_as_index nd = Inr (first_int_const (call_results (igetattr nd ''__index__'')))"
    by (simp add: class_instance_as_index_def index_loop_first)
  show "is_int_const r" if "class_instance_as_index nd = Inr (Some r)" for r
    using that eq first_int_const_yielded by simp
  show "class_instance_as_index nd = Inr None"
    if none: "\<forall>r \<in> set (all_call_results (igetattr nd ''__index__'')). \<not> is_int_const r"
  proof (cases "first_int_const (call_results (igetattr nd ''__index__''))")
    case None
    with eq show ?thesis by simp
  next
    case (Some r)
    from first_int_const_yielded[OF Some] yielded_call_results none show ?thesis by blast
  qed
qed

theorem class_instance_as_index_first_witness:
  "class_instance_as_index index_42 = Inr (Some (Const (IntValue 42) YES))
   \<and> is_int_const (Const (IntValue 42) YES)
   \<and> first_int_const (call_results (igetattr index_42 ''__index__'')) = Some (Const (IntValue 42) YES)"
proof -
  have "first_int_const (call_results (igetattr index_42 ''__index__'')) = Some (Const (IntValue 42) YES)"
    by (simp add: index_42_def)
  with class_instance_as_index_first[of index_42] show ?thesis by simp
qed

text \<open>
  C7 as stated fails on \<open>index_after_failure\<close>: the first integer constant among the
  call results of its bound methods is 42 (the call of the first method raises
  \<^verbatim>\<open>InferenceError\<close> and yields nothing, the call of the second yields 42), but the
  \<^verbatim>\<open>InferenceError\<close> of the first call ends both loops and the function returns \<^verbatim>\<open>None\<close>.
\<close>

theorem class_instance_as_index_failure_counterexample:
  "igetattr index_after_failure ''__index__'' =
     Yield (BoundMethod Fails) (Yield (BoundMethod (Yield (Const (IntValue 42) YES) Stop)) Stop)
   \<and> find is_int_const (all_call_results (igetattr index_after_failure ''__index__''))
       = Some (Const (IntValue 42) YES)
   \<and> class_instance_as_index index_after_failure = Inr None"
  by (simp add: index_after_failure_def all_call_results_def class_instance_as_index_def)

section \<open>\<^verbatim>\<open>object_type\<close>: one type or none\<close>

lemma function_type_returns:
  "isinstance_Lambda_or_UnboundMethod v \<Longrightarrow> \<exists>p h'. function_type e v b h = Inr (p, h')"
  by (cases v) (simp_all add: function_type_def build_proxy_class_def build_class_def)

text \<open>One candidate is classified, then the rest of the sequence is drawn.\<close>

lemma object_type_gen_Yield:
  "\<exists>t h1. object_type_gen e h (Yield v g) =
     (case object_type_gen e h1 g of
        (Inl x, h2) \<Rightarrow> (Inl x, h2)
      | (Inr ts, h2) \<Rightarrow> (Inr (t # ts), h2))"
proof (cases "isinstance_Lambda_or_UnboundMethod v")
  case True
  from function_type_returns[OF True, of e "BUILTINS e" h] obtain p h' where
    "function_type e v (BUILTINS e) h = Inr (p, h')" by blast
  with True show ?thesis by (cases v) auto
next
  case False
  then show ?thesis
    by (cases v) (auto simp: build_proxy_class_def build_class_def)
qed

lemma object_type_gen_raises:
  "raises g \<Longrightarrow> \<exists>h'. object_type_gen e h g = (Inl InferenceError, h')"
proof (induction g arbitrary: h)
  case (Yield v g)
  from object_type_gen_Yield[of e h v g] obtain t h1 where
    eq: "object_type_gen e h (Yield v g) =
     (case object_type_gen e h1 g of
        (Inl x, h2) \<Rightarrow> (Inl x, h2)
      | (Inr ts, h2) \<Rightarrow> (Inr (t # ts), h2))" by blast
  from Yield.IH[of h1] Yield.prems obtain h' where "object_type_gen e h1 g = (Inl InferenceError, h')"
    by auto
  with eq show ?case by simp
qed simp_all

lemma object_type_gen_clean:
  "\<not> raises g \<Longrightarrow>
     \<exists>ts h'. object_type_gen e h g = (Inr ts, h') \<and> length ts = length (yielded g)"
proof (induction g arbitrary: h)
  case (Yield v g)
  from object_type_gen_Yield[of e h v g] obtain t h1 where
    eq: "object_type_gen e h (Yield v g) =
     (case object_type_gen e h1 g of
        (Inl x, h2) \<Rightarrow> (Inl x, h2)
      | (Inr ts, h2) \<Rightarrow> (Inr (t # ts), h2))" by blast
  from Yield.IH[of h1] Yield.prems obtain ts h' where
    "object_type_gen e h1 g = (Inr ts, h')" "length ts = length (yielded g)"
    by auto
  with eq show ?case by simp
qed simp_all

lemma remdups_singleton: "set ts = {t} \<Longrightarrow> remdups ts = [t]"
proof -
  assume s: "set ts = {t}"
  have "length (remdups ts) = card (set ts)" by (simp add: length_remdups_card_conv)
  with s have "length (remdups ts) = 1" by simp
  then obtain x where x: "remdups ts = [x]"
    by (cases "remdups ts") auto
  then have "set (remdups ts) = {x}" by simp
  with s have "x = t" by simp
  with x show ?thesis by simp
qed

lemma remdups_not_singleton:
  "\<not> (\<exists>t. set ts = {t}) \<Longrightarrow> length (remdups ts) > 1 \<or> remdups ts = []"
proof -
  assume n: "\<not> (\<exists>t. set ts = {t})"
  have "length (remdups ts) \<noteq> 1"
  proof
    assume "length (remdups ts) = 1"
    then obtain x where "remdups ts = [x]"
      by (cases "remdups ts") auto
    then have "set (remdups ts) = {x}" by simp
    with n show False by simp
  qed
  then show ?thesis by (cases "remdups ts") auto
qed

text \<open>
  C4. When the inference of the node raises \<^verbatim>\<open>InferenceError\<close>, at the first draw or
  after some candidates, \<^verbatim>\<open>object_type\<close> returns \<^verbatim>\<open>util.YES\<close>. Otherwise every candidate
  is classified (\<open>ts\<close> has one type for each); \<^verbatim>\<open>object_type\<close> returns the type \<open>t\<close> when
  the set of these types is \<open>{t}\<close>, and \<^verbatim>\<open>util.YES\<close> when the set is empty or has two
  members or more.
\<close>

theorem object_type_unique:
  "(raises (infer nd) \<longrightarrow> fst (object_type e h nd) = Inr YES)
   \<and> (\<not> raises (infer nd) \<longrightarrow>
        (\<exists>ts h'. object_type_gen e h (infer nd) = (Inr ts, h')
           \<and> length ts = length (yielded (infer nd))
           \<and> (\<forall>t. set ts = {t} \<longrightarrow> object_type e h nd = (Inr t, h'))
           \<and> (\<not> (\<exists>t. set ts = {t}) \<longrightarrow> object_type e h nd = (Inr YES, h'))))"
proof (intro conjI impI)
  assume "raises (infer nd)"
  from object_type_gen_raises[OF this, of e h] obtain h' where
    "object_type_gen e h (infer nd) = (Inl InferenceError, h')" by blast
  then show "fst (object_type e h nd) = Inr YES" by (simp add: object_type_def)
next
  assume "\<not> raises (infer nd)"
  from object_type_gen_clean[OF this, of e h] obtain ts h' where
    gen: "object_type_gen e h (infer nd) = (Inr ts, h')" and len: "length ts = length (yielded (infer nd))"
    by blast
  have one: "object_type e h nd = (Inr t, h')" if "set ts = {t}" for t
    using gen remdups_singleton[OF that] by (simp add: object_type_def)
  have other: "object_type e h nd = (Inr YES, h')" if "\<not> (\<exists>t. set ts = {t})"
    using gen remdups_not_singleton[OF that] by (auto simp add: object_type_def Let_def)
  from gen len one other
  show "\<exists>ts h'. object_type_gen e h (infer nd) = (Inr ts, h')
           \<and> length ts = length (yielded (infer nd))
           \<and> (\<forall>t. set ts = {t} \<longrightarrow> object_type e h nd = (Inr t, h'))
           \<and> (\<not> (\<exists>t. set ts = {t}) \<longrightarrow> object_type e h nd = (Inr YES, h'))" by blast
qed


theorem object_type_unique_witness:
  "\<not> raises (infer (node_of (Yield (Instance (Definite 5)) (Yield (Const (IntValue 1) (Definite 5)) Stop))))
   \<and> object_type py3 heap10
        (node_of (Yield (Instance (Definite 5)) (Yield (Const (IntValue 1) (Definite 5)) Stop)))
       = (Inr (Definite 5), heap10)
   \<and> raises (infer (node_of (Yield (Instance (Definite 5)) Fails)))
   \<and> fst (object_type py3 heap10 (node_of (Yield (Instance (Definite 5)) Fails))) = Inr YES"
proof -
  let ?one = "node_of (Yield (Instance (Definite 5)) (Yield (Const (IntValue 1) (Definite 5)) Stop))"
  let ?bad = "node_of (Yield (Instance (Definite 5)) Fails)"
  have clean: "\<not> raises (infer ?one)" by (simp add: node_of_def)
  have gen: "object_type_gen py3 heap10 (infer ?one) = (Inr [Definite 5, Definite 5], heap10)"
    by (simp add: node_of_def)
  have bad: "raises (infer ?bad)" by (simp add: node_of_def)
  from object_type_unique[of ?one py3 heap10] clean gen
  have "\<forall>t. set [Definite (5::nat), Definite 5] = {t} \<longrightarrow> object_type py3 heap10 ?one = (Inr t, heap10)"
    by auto
  then have a: "object_type py3 heap10 ?one = (Inr (Definite 5), heap10)" by simp
  from object_type_unique[of ?bad py3 heap10] bad
  have b: "fst (object_type py3 heap10 ?bad) = Inr YES" by blast
  from clean a bad b show ?thesis by blast
qed

text \<open>
  C8, as amended. For a node inferred to one value: a lambda or function is classified
  as a new class named \<^verbatim>\<open>builtin_function_or_method\<close> when the name of its root is that of
  the module of the built-ins, and \<^verbatim>\<open>function\<close> otherwise; a bound method as a new class
  named \<^verbatim>\<open>method\<close> and an unbound method as one named \<^verbatim>\<open>function\<close> when \<^verbatim>\<open>six.PY2\<close> is
  false, both as one named \<^verbatim>\<open>instancemethod\<close> when it is true.
\<close>

theorem object_type_of_functions:
  assumes "infer nd = Yield v Stop"
  shows "(\<forall>root_name. v = Lambda root_name \<longrightarrow>
            yields_proxy_named e h nd
              (if root_name = BUILTINS e then ''builtin_function_or_method'' else ''function''))
       \<and> (\<forall>results. v = BoundMethod results \<longrightarrow>
            yields_proxy_named e h nd (if PY2 e then ''instancemethod'' else ''method''))
       \<and> (v = UnboundMethod \<longrightarrow>
            yields_proxy_named e h nd (if PY2 e then ''instancemethod'' else ''function''))"
  using assms
  by (simp add: yields_proxy_named_def object_type_def function_type_def build_proxy_class_def
      build_class_def)

theorem object_type_of_functions_witness:
  "infer (node_of (Yield (Lambda ''builtins'') Stop)) = Yield (Lambda ''builtins'') Stop
   \<and> yields_proxy_named py3 heap10 (node_of (Yield (Lambda ''builtins'') Stop))
        ''builtin_function_or_method''
   \<and> yields_proxy_named py3 heap10 (node_of (Yield (Lambda ''mymodule'') Stop)) ''function''
   \<and> yields_proxy_named py3 heap10 (node_of (Yield (BoundMethod Stop) Stop)) ''method''
   \<and> yields_proxy_named py3 heap10 (node_of (Yield UnboundMethod Stop)) ''function''"
proof -
  have i: "infer (node_of (Yield x Stop)) = Yield x Stop" for x
    by (simp add: node_of_def)
  have b: "BUILTINS py3 = ''builtins''" "\<not> PY2 py3" by (simp_all add: BUILTINS_def py3_def)
  from object_type_of_functions[OF i, of "Lambda ''builtins''" py3 heap10]
    object_type_of_functions[OF i, of "Lambda ''mymodule''" py3 heap10]
    object_type_of_functions[OF i, of "BoundMethod Stop" py3 heap10]
    object_type_of_functions[OF i, of "UnboundMethod" py3 heap10] i b
  show ?thesis by simp
qed

text \<open>
  C8 as stated fails under Python 2: a bound method is classified as \<^verbatim>\<open>instancemethod\<close>,
  not \<^verbatim>\<open>method\<close>, and an unbound method as \<^verbatim>\<open>instancemethod\<close>, not \<^verbatim>\<open>function\<close>.
\<close>

theorem object_type_python2_counterexample:
  "PY2 py2
   \<and> infer (node_of (Yield (BoundMethod Stop) Stop)) = Yield (BoundMethod Stop) Stop
   \<and> yields_proxy_named py2 heap10 (node_of (Yield (BoundMethod Stop) Stop)) ''instancemethod''
   \<and> \<not> yields_proxy_named py2 heap10 (node_of (Yield (BoundMethod Stop) Stop)) ''method''
   \<and> yields_proxy_named py2 heap10 (node_of (Yield UnboundMethod Stop)) ''instancemethod''
   \<and> \<not> yields_proxy_named py2 heap10 (node_of (Yield UnboundMethod Stop)) ''function''"
  by (simp add: yields_proxy_named_def object_type_def function_type_def build_proxy_class_def
      build_class_def node_of_def py2_def heap10_def)

section \<open>What the public operations return\<close>

lemma object_type_returns: "\<exists>t h'. object_type e h nd = (Inr t, h')"
proof (cases "raises (infer nd)")
  case True
  from object_type_gen_raises[OF True, of e h] obtain h' where
    "object_type_gen e h (infer nd) = (Inl InferenceError, h')" by blast
  then show ?thesis by (simp add: object_type_def)
next
  case False
  from object_type_gen_clean[OF False, of e h] obtain ts h' where
    "object_type_gen e h (infer nd) = (Inr ts, h')" by blast
  then show ?thesis by (simp add: object_type_def Let_def)
qed

lemma safe_infer_returns: "infer nd \<noteq> Stop \<Longrightarrow> \<exists>v. safe_infer nd = Inr v"
  by (cases "infer nd") (auto simp: safe_infer_def split: gen.splits)

lemma decided_returns:
  assumes "flags_accurate s"
    and "bases_all_known (bases_of s) C \<or> bases_not_known (bases_of s) C"
  shows "\<exists>n b s'. has_known_bases n s C = Some (Inr b, s')"
  using assms known_returns_true[OF _ assms(1) refl, of C]
    unknown_returns_false[OF _ assms(1) refl, of C] by blast

lemma all_known_bases_exn:
  assumes "all_known_bases n e s t1 t2 = Some (Inl x, s')"
  shows "x = StopIteration"
proof (cases "has_known_bases n s t1")
  case None
  with assms show ?thesis by (simp add: all_known_bases_def)
next
  case (Some p)
  obtain r1 s1 where p: "p = (r1, s1)" by (cases p)
  show ?thesis
  proof (cases r1)
    case (Inl y)
    with assms Some p have "x = y" by (simp add: all_known_bases_def)
    with run_exn_both Some p Inl show ?thesis by blast
  next
    case (Inr b1)
    note r1 = this
    show ?thesis
    proof (cases "\<not> PY2 e \<and> \<not> b1")
      case True
      with assms Some p r1 show ?thesis by (simp add: all_known_bases_def)
    next
      case False
      show ?thesis
      proof (cases "has_known_bases n s1 t2")
        case None
        with assms Some p r1 False show ?thesis by (auto simp add: all_known_bases_def)
      next
        case (Some q)
        obtain r2 s2 where q: "q = (r2, s2)" by (cases q)
        show ?thesis
        proof (cases r2)
          case (Inl y)
          with assms \<open>has_known_bases n s t1 = Some p\<close> p r1 False Some q have "x = y"
            by (auto simp add: all_known_bases_def)
          with run_exn_both Some q Inl show ?thesis by blast
        next
          case (Inr b2)
          with assms \<open>has_known_bases n s t1 = Some p\<close> p r1 False Some q show ?thesis
            by (auto simp add: all_known_bases_def)
        qed
      qed
    qed
  qed
qed

lemma type_check_exn:
  assumes "type_check n e s t1 t2 = Some (Inl x, s')"
  shows "x = StopIteration"
proof (cases "all_known_bases n e s t1 t2")
  case None
  with assms show ?thesis by (simp add: type_check_def)
next
  case (Some p)
  obtain r1 s1 where p: "p = (r1, s1)" by (cases p)
  show ?thesis
  proof (cases r1)
    case (Inl y)
    with assms Some p have "x = y" by (simp add: type_check_def)
    with all_known_bases_exn Some p Inl show ?thesis by blast
  next
    case (Inr known)
    with assms Some p show ?thesis
      by (simp add: type_check_def split: if_splits option.splits)
  qed
qed

lemma type_check_returns:
  assumes acc: "flags_accurate s"
    and d1: "bases_all_known (bases_of s) t1 \<or> bases_not_known (bases_of s) t1"
    and d2: "bases_all_known (bases_of s) t2 \<or> bases_not_known (bases_of s) t2"
  shows "\<exists>n r s'. type_check n e s t1 t2 = Some (Inr r, s')"
proof -
  from decided_returns[OF acc d1] obtain n1 b1 s1 where
    run1: "has_known_bases n1 s t1 = Some (Inr b1, s1)" by blast
  have acc1: "flags_accurate s1" by (rule run_sound(1)[OF run1 acc])
  have same: "bases_of s1 = bases_of s" by (rule run_bases_of[OF run1])
  from d2 have d2': "bases_all_known (bases_of s1) t2 \<or> bases_not_known (bases_of s1) t2"
    by (simp add: same)
  from decided_returns[OF acc1 d2'] obtain n2 b2 s2 where
    run2: "has_known_bases n2 s1 t2 = Some (Inr b2, s2)" by blast
  have r1: "has_known_bases (max n1 n2) s t1 = Some (Inr b1, s1)"
    by (rule run_fuel[OF run1]) simp
  have r2: "has_known_bases (max n1 n2) s1 t2 = Some (Inr b2, s2)"
    by (rule run_fuel[OF run2]) simp
  from type_check_result[OF r1 r2, of e] obtain r where
    "returned (type_check (max n1 n2) e s t1 t2) = Some (Inr r)" by blast
  then obtain s' where "type_check (max n1 n2) e s t1 t2 = Some (Inr r, s')"
    by (auto simp: returned_def)
  then show ?thesis by blast
qed


text \<open>
  C9, as amended. \<^verbatim>\<open>object_type\<close> and \<^verbatim>\<open>class_instance_as_index\<close> return a value on every
  input, and \<^verbatim>\<open>safe_infer\<close> on every node whose candidate sequence is not empty.
  \<^verbatim>\<open>has_known_bases\<close>, \<^verbatim>\<open>is_subtype\<close> and \<^verbatim>\<open>is_supertype\<close> return a value, in a store
  whose memoised flags are right, when for each class involved the scan of the bases is
  decided: every base passes the four checks, or a base that fails one is reached after
  bases that pass. And none of the six lets an \<^verbatim>\<open>InferenceError\<close> or a \<^verbatim>\<open>MroError\<close> out.
\<close>

theorem public_operations_return:
  "(infer nd \<noteq> Stop \<longrightarrow> (\<exists>v. safe_infer nd = Inr v))
   \<and> safe_infer nd \<noteq> Inl InferenceError \<and> safe_infer nd \<noteq> Inl MroError
   \<and> (\<exists>t h'. object_type e h nd = (Inr t, h'))
   \<and> (\<exists>v. class_instance_as_index nd = Inr v)
   \<and> (flags_accurate s \<longrightarrow>
        (bases_all_known (bases_of s) A \<or> bases_not_known (bases_of s) A) \<longrightarrow>
        (\<exists>n b s'. has_known_bases n s A = Some (Inr b, s')))
   \<and> (flags_accurate s \<longrightarrow>
        (bases_all_known (bases_of s) A \<or> bases_not_known (bases_of s) A) \<longrightarrow>
        (bases_all_known (bases_of s) B \<or> bases_not_known (bases_of s) B) \<longrightarrow>
        (\<exists>n r s'. is_subtype n e s A B = Some (Inr r, s')) \<and>
        (\<exists>n r s'. is_supertype n e s A B = Some (Inr r, s')))
   \<and> (\<forall>n x s'. has_known_bases n s A = Some (Inl x, s') \<longrightarrow> x \<noteq> InferenceError \<and> x \<noteq> MroError)
   \<and> (\<forall>n x s'. is_subtype n e s A B = Some (Inl x, s') \<longrightarrow> x \<noteq> InferenceError \<and> x \<noteq> MroError)
   \<and> (\<forall>n x s'. is_supertype n e s A B = Some (Inl x, s') \<longrightarrow> x \<noteq> InferenceError \<and> x \<noteq> MroError)"
proof (intro conjI impI allI)
  show "\<exists>v. safe_infer nd = Inr v" if "infer nd \<noteq> Stop"
    by (rule safe_infer_returns[OF that])
  show "safe_infer nd \<noteq> Inl InferenceError" using safe_infer_exn[of nd InferenceError] by auto
  show "safe_infer nd \<noteq> Inl MroError" using safe_infer_exn[of nd MroError] by auto
  show "\<exists>t h'. object_type e h nd = (Inr t, h')" by (rule object_type_returns)
  show "\<exists>v. class_instance_as_index nd = Inr v" by (simp add: class_instance_as_index_def)
  show "\<exists>n b s'. has_known_bases n s A = Some (Inr b, s')"
    if "flags_accurate s" "bases_all_known (bases_of s) A \<or> bases_not_known (bases_of s) A"
    by (rule decided_returns[OF that])
  show "\<exists>n r s'. is_subtype n e s A B = Some (Inr r, s')"
    if "flags_accurate s" "bases_all_known (bases_of s) A \<or> bases_not_known (bases_of s) A"
      "bases_all_known (bases_of s) B \<or> bases_not_known (bases_of s) B"
    unfolding is_subtype_def by (rule type_check_returns[OF that(1) that(3) that(2)])
  show "\<exists>n r s'. is_supertype n e s A B = Some (Inr r, s')"
    if "flags_accurate s" "bases_all_known (bases_of s) A \<or> bases_not_known (bases_of s) A"
      "bases_all_known (bases_of s) B \<or> bases_not_known (bases_of s) B"
    unfolding is_supertype_def by (rule type_check_returns[OF that])
next
  fix n x s'
  assume "has_known_bases n s A = Some (Inl x, s')"
  with run_exn_both have "x = StopIteration" by blast
  then show "x \<noteq> InferenceError" "x \<noteq> MroError" by simp_all
next
  fix n x s'
  assume "is_subtype n e s A B = Some (Inl x, s')"
  then have "x = StopIteration" unfolding is_subtype_def by (rule type_check_exn)
  then show "x \<noteq> InferenceError" "x \<noteq> MroError" by simp_all
next
  fix n x s'
  assume "is_supertype n e s A B = Some (Inl x, s')"
  then have "x = StopIteration" unfolding is_supertype_def by (rule type_check_exn)
  then show "x \<noteq> InferenceError" "x \<noteq> MroError" by simp_all
qed

theorem public_operations_return_witness:
  "infer (class_node 0) \<noteq> Stop \<and> (\<exists>v. safe_infer (class_node 0) = Inr v)
   \<and> flags_accurate hierarchy
   \<and> (bases_all_known (bases_of hierarchy) (Suc 0) \<or> bases_not_known (bases_of hierarchy) (Suc 0))
   \<and> (bases_all_known (bases_of hierarchy) 0 \<or> bases_not_known (bases_of hierarchy) 0)
   \<and> (\<exists>n b s'. has_known_bases n hierarchy (Suc 0) = Some (Inr b, s'))
   \<and> (\<exists>n r s'. is_subtype n py3 hierarchy (Suc 0) 0 = Some (Inr r, s'))
   \<and> (\<exists>n r s'. is_supertype n py3 hierarchy (Suc 0) 0 = Some (Inr r, s'))
   \<and> (\<exists>t h'. object_type py3 heap10 (class_node 0) = (Inr t, h'))
   \<and> (\<exists>v. class_instance_as_index index_42 = Inr v)"
proof -
  have ne: "infer (class_node 0) \<noteq> Stop" by (simp add: class_node_def node_of_def)
  have d1: "bases_all_known (bases_of hierarchy) (Suc 0) \<or> bases_not_known (bases_of hierarchy) (Suc 0)"
    using hierarchy_derived_known by blast
  have d0: "bases_all_known (bases_of hierarchy) 0 \<or> bases_not_known (bases_of hierarchy) 0"
    using hierarchy_base_known by blast
  note inst = public_operations_return[of "class_node 0" py3 heap10 hierarchy "Suc 0" 0]
  from inst ne have a: "\<exists>v. safe_infer (class_node 0) = Inr v" by blast
  from inst hierarchy_accurate d1
  have b: "\<exists>n b s'. has_known_bases n hierarchy (Suc 0) = Some (Inr b, s')" by blast
  from inst hierarchy_accurate d1 d0
  have c: "\<exists>n r s'. is_subtype n py3 hierarchy (Suc 0) 0 = Some (Inr r, s')"
    and d: "\<exists>n r s'. is_supertype n py3 hierarchy (Suc 0) 0 = Some (Inr r, s')" by blast+
  from inst have f: "\<exists>t h'. object_type py3 heap10 (class_node 0) = (Inr t, h')" by blast
  from public_operations_return[of index_42 py3 heap10 hierarchy 0 0]
  have g: "\<exists>v. class_instance_as_index index_42 = Inr v" by blast
  from ne a hierarchy_accurate d1 d0 b c d f g show ?thesis by blast
qed

text \<open>
  C9 as stated fails on two classes that name each other as their base: the inference of
  each base ends, with one class, and yet \<^verbatim>\<open>has_known_bases\<close>, \<^verbatim>\<open>is_subtype\<close> and
  \<^verbatim>\<open>is_supertype\<close> return nothing, at any depth of the recursion.
\<close>

theorem indirect_cycle_counterexample:
  "bases (cyclic 0) = [class_node (Suc 0)] \<and> bases (cyclic (Suc 0)) = [class_node 0]
   \<and> safe_infer (class_node (Suc 0)) = Inr (Some (ClassDef (Suc 0)))
   \<and> safe_infer (class_node 0) = Inr (Some (ClassDef 0))
   \<and> (\<forall>n. has_known_bases n cyclic 0 = None)
   \<and> (\<forall>n. is_subtype n py3 cyclic 0 (Suc 0) = None)
   \<and> (\<forall>n. is_supertype n py3 cyclic 0 (Suc 0) = None)"
proof -
  have a: "has_known_bases n cyclic 0 = None" and b: "has_known_bases n cyclic (Suc 0) = None" for n
    using cyclic_diverges[of n] by simp_all
  have c: "is_subtype n py3 cyclic 0 (Suc 0) = None" for n
    by (simp add: is_subtype_def type_check_def all_known_bases_def b)
  have d: "is_supertype n py3 cyclic 0 (Suc 0) = None" for n
    by (simp add: is_supertype_def type_check_def all_known_bases_def a)
  from a c d show ?thesis
    by (simp add: cyclic_at class_node_infer)
qed

end
